theory Spec2Isabelle
  imports Complex_Main "HOL-Library.Word"
begin

unbundle bit_operations_syntax

section \<open>Machine types\<close>

type_synonym u8 = "8 word"
type_synonym u16 = "16 word"
type_synonym u32 = "32 word"

section \<open>MIDI output\<close>

text \<open>
  What a sketch hands to its transport. \<open>UsbPacket h b1 b2 b3\<close> is the
  \<open>midiEventPacket_t\<close> given to \<open>MidiUSB.sendMIDI\<close>; \<open>SerialMsg b1 b2 b3\<close> is the three
  bytes that \<open>midiSend3\<close> writes to \<open>Serial1\<close>. \<open>MidiUSB.flush()\<close> sends nothing of its own and
  is left out.
\<close>

datatype midi_out = UsbPacket u8 u8 u8 u8 | SerialMsg u8 u8 u8

fun status_of :: "midi_out \<Rightarrow> u8" where
  "status_of (UsbPacket h b1 b2 b3) = b1"
| "status_of (SerialMsg b1 b2 b3) = b1"

fun note_of :: "midi_out \<Rightarrow> u8" where
  "note_of (UsbPacket h b1 b2 b3) = b2"
| "note_of (SerialMsg b1 b2 b3) = b2"

fun velocity_of :: "midi_out \<Rightarrow> u8" where
  "velocity_of (UsbPacket h b1 b2 b3) = b3"
| "velocity_of (SerialMsg b1 b2 b3) = b3"

text \<open>A message is a Note On (Note Off) when the high nibble of its status byte is 9 (8).\<close>

definition is_note_on :: "midi_out \<Rightarrow> bool" where
  "is_note_on m = (status_of m AND 0xF0 = 0x90)"

definition is_note_off :: "midi_out \<Rightarrow> bool" where
  "is_note_off m = (status_of m AND 0xF0 = 0x80)"

text \<open>\<open>sendNoteOn\<close> / \<open>sendNoteOff\<close> of the two fixed-tempo USB sketches.\<close>

definition sendNoteOn :: "u8 \<Rightarrow> u8 \<Rightarrow> u8 \<Rightarrow> midi_out" where
  "sendNoteOn note vel ch = UsbPacket 0x09 (0x90 OR (ch AND 0x0F)) note vel"

definition sendNoteOff :: "u8 \<Rightarrow> u8 \<Rightarrow> u8 \<Rightarrow> midi_out" where
  "sendNoteOff note vel ch = UsbPacket 0x08 (0x80 OR (ch AND 0x0F)) note vel"

text \<open>The same helpers of the DIN sketch, through \<open>midiSend3\<close>.\<close>

definition midiSend3 :: "u8 \<Rightarrow> u8 \<Rightarrow> u8 \<Rightarrow> midi_out" where
  "midiSend3 b1 b2 b3 = SerialMsg b1 b2 b3"

definition sendNoteOn_din :: "u8 \<Rightarrow> u8 \<Rightarrow> u8 \<Rightarrow> midi_out" where
  "sendNoteOn_din note vel ch = (let status = 0x90 OR (ch AND 0x0F) in midiSend3 status note vel)"

definition sendNoteOff_din :: "u8 \<Rightarrow> u8 \<Rightarrow> u8 \<Rightarrow> midi_out" where
  "sendNoteOff_din note vel ch = (let status = 0x80 OR (ch AND 0x0F) in midiSend3 status note vel)"

definition NOTE_VELOCITY :: u8 where
  "NOTE_VELOCITY = 110"

text \<open>The one-argument helpers of the swing sketch (channel 0, fixed velocities).\<close>

definition MIDI_CHANNEL_sw :: u8 where
  "MIDI_CHANNEL_sw = 0"

definition sendNoteOn_sw :: "u8 \<Rightarrow> midi_out" where
  "sendNoteOn_sw note = UsbPacket 0x09 (0x90 OR MIDI_CHANNEL_sw) note NOTE_VELOCITY"

definition sendNoteOff_sw :: "u8 \<Rightarrow> midi_out" where
  "sendNoteOff_sw note = UsbPacket 0x08 (0x80 OR MIDI_CHANNEL_sw) note 0"

section \<open>Debouncer: \<open>pollEdgeFalling\<close> / \<open>pollFalling\<close>\<close>

text \<open>
  \<open>struct Btn\<close> of all four sketches. A digital level is a \<open>bool\<close>: \<open>HIGH\<close> is \<open>True\<close>
  (idle, pull-up), \<open>LOW\<close> is \<open>False\<close> (pressed). The swing sketch calls the last field
  \<open>lastChange\<close>.
\<close>

record Btn =
  pin :: u8
  stable :: bool
  lastRead :: bool
  lastChangeMs :: u32

text \<open>
  \<open>pollEdgeFalling(Btn &b, uint16_t debounceMs)\<close>. The two reads of the outside world,
  \<open>millis()\<close> and \<open>digitalRead(b.pin)\<close>, are the arguments \<open>now\<close> and \<open>r\<close>; the result is
  the returned flag and the updated button. \<open>now - b.lastChangeMs\<close> is an unsigned 32-bit
  difference, compared with the 16-bit window after widening.
\<close>

definition pollEdgeFalling :: "Btn \<Rightarrow> u16 \<Rightarrow> u32 \<Rightarrow> bool \<Rightarrow> bool \<times> Btn" where
  "pollEdgeFalling b debounceMs now r =
     (let b1 = (if r \<noteq> lastRead b then b\<lparr>lastChangeMs := now, lastRead := r\<rparr> else b)
      in if now - lastChangeMs b1 > ucast debounceMs then
           (if r \<noteq> stable b1
            then (let falling = (stable b1 = True \<and> r = False)
                  in (falling, b1\<lparr>stable := r\<rparr>))
            else (False, b1))
         else (False, b1))"

text \<open>\<open>pollFalling\<close> of the swing sketch: the same body with the two tests joined by \<open>&&\<close>.\<close>

definition pollFalling :: "Btn \<Rightarrow> u16 \<Rightarrow> u32 \<Rightarrow> bool \<Rightarrow> bool \<times> Btn" where
  "pollFalling b debounceMs now r =
     (let b1 = (if r \<noteq> lastRead b then b\<lparr>lastRead := r, lastChangeMs := now\<rparr> else b)
      in if now - lastChangeMs b1 > ucast debounceMs \<and> r \<noteq> stable b1
         then (let falling = (stable b1 = True \<and> r = False)
               in (falling, b1\<lparr>stable := r\<rparr>))
         else (False, b1))"

text \<open>
  A run of polls of one button: each element is one call, given as the pair
  (\<open>millis()\<close>, \<open>digitalRead\<close>). The result is the list of returned flags, in call order,
  and the button after the last call.
\<close>

fun poll_run :: "Btn \<Rightarrow> u16 \<Rightarrow> (u32 \<times> bool) list \<Rightarrow> bool list \<times> Btn" where
  "poll_run b w [] = ([], b)"
| "poll_run b w (p # ps) =
     (let (e, b1) = pollEdgeFalling b w (fst p) (snd p);
          (es, b2) = poll_run b1 w ps
      in (e # es, b2))"

text \<open>The same run of polls through the swing sketch's \<open>pollFalling\<close>.\<close>

fun poll_run_sw :: "Btn \<Rightarrow> u16 \<Rightarrow> (u32 \<times> bool) list \<Rightarrow> bool list \<times> Btn" where
  "poll_run_sw b w [] = ([], b)"
| "poll_run_sw b w (p # ps) =
     (let (e, b1) = pollFalling b w (fst p) (snd p);
          (es, b2) = poll_run_sw b1 w ps
      in (e # es, b2))"

text \<open>
  The time stamps \<open>ts\<close>, read in order, stay within \<open>w\<close> milliseconds of each other: every
  later stamp is at most \<open>w\<close> after every earlier one, as an unsigned difference (so the
  span may straddle a wrap of the counter).
\<close>

fun within_span :: "u32 \<Rightarrow> u32 list \<Rightarrow> bool" where
  "within_span w [] = True"
| "within_span w (t # ts) = ((\<forall>u \<in> set ts. u - t \<le> w) \<and> within_span w ts)"

text \<open>The number of calls of a run that returned \<open>true\<close>.\<close>

definition edges :: "bool list \<Rightarrow> nat" where
  "edges es = length (filter (\<lambda>e. e) es)"

section \<open>What one pass of \<open>loop()\<close> reads\<close>

text \<open>
  Every read of the outside world in one pass of \<open>loop()\<close>. Each debounced button is read
  by one poll, a pair (\<open>millis()\<close>, \<open>digitalRead\<close>): \<open>in_inst\<close> for the instrument button,
  \<open>in_steps\<close> for the four step buttons in index order, \<open>in_play\<close> for the play button.
  \<open>t_play\<close> is the \<open>millis()\<close> that \<open>handlePlayButton\<close> reads when playback starts, \<open>t_seq\<close>
  the one at the top of \<open>runSequencer\<close> (in the swing sketch: at the top of \<open>loop()\<close>).
  \<open>tempoRaw\<close> and \<open>swingRaw\<close> are the two \<open>analogRead\<close> results of the swing sketch.
\<close>

record inputs =
  in_inst :: "u32 \<times> bool"
  in_steps :: "(u32 \<times> bool) list"
  in_play :: "u32 \<times> bool"
  t_play :: u32
  t_seq :: u32
  tempoRaw :: int
  swingRaw :: int

definition DEBOUNCE_STEP_MS :: u16 where
  "DEBOUNCE_STEP_MS = 20"

definition DEBOUNCE_PLAY_MS :: u16 where
  "DEBOUNCE_PLAY_MS = 30"

definition DEBOUNCE_INST_MS :: u16 where
  "DEBOUNCE_INST_MS = 30"

definition GATE_MS_BASE :: u16 where
  "GATE_MS_BASE = 120"

definition FIXED_BPM :: int where
  "FIXED_BPM = 127"

text \<open>
  The deadline test of the three fixed-tempo sketches, \<open>(int32_t)(now - deadline) >= 0\<close>:
  the unsigned difference read as a signed 32-bit number.
\<close>

definition due :: "u32 \<Rightarrow> u32 \<Rightarrow> bool" where
  "due now deadline = (0 \<le>s now - deadline)"

text \<open>The deadline test of the swing sketch, \<open>now >= deadline\<close> on unsigned 32-bit values.\<close>

definition due_sw :: "u32 \<Rightarrow> u32 \<Rightarrow> bool" where
  "due_sw now deadline = (deadline \<le> now)"

section \<open>The single-voice sketch (\<open>four_step_sequencer.ino\<close>)\<close>

text \<open>Its globals, with the messages sent so far as \<open>fs_sent\<close>. LED writes are left out.\<close>

record fs_state =
  fs_stepBtn :: "Btn list"
  fs_playBtn :: Btn
  stepEnabled :: "bool list"
  fs_isPlaying :: bool
  fs_stepIndex :: u8
  fs_stepIntervalMs :: u32
  fs_nextStepAtMs :: u32
  fs_noteActive :: bool
  fs_noteOffAtMs :: u32
  fs_sent :: "midi_out list"

definition DRUM_NOTE :: u8 where
  "DRUM_NOTE = 36"

definition MIDI_CHANNEL_fs :: u8 where
  "MIDI_CHANNEL_fs = 9"

text \<open>\<open>handleStepButtons\<close>: the loop over \<open>i = 0..3\<close>, as recursion over the index list.\<close>

fun handleStepButtons_fs :: "(u32 \<times> bool) list \<Rightarrow> nat list \<Rightarrow> fs_state \<Rightarrow> fs_state" where
  "handleStepButtons_fs rd [] s = s"
| "handleStepButtons_fs rd (i # is) s =
     (let (e, b) = pollEdgeFalling (fs_stepBtn s ! i) DEBOUNCE_STEP_MS (fst (rd ! i)) (snd (rd ! i));
          s1 = s\<lparr>fs_stepBtn := (fs_stepBtn s)[i := b]\<rparr>;
          s2 = (if e then s1\<lparr>stepEnabled := (stepEnabled s1)[i := \<not> stepEnabled s1 ! i]\<rparr> else s1)
      in handleStepButtons_fs rd is s2)"

definition handlePlayButton_fs :: "inputs \<Rightarrow> fs_state \<Rightarrow> fs_state" where
  "handlePlayButton_fs i s =
     (let (e, b) = pollEdgeFalling (fs_playBtn s) DEBOUNCE_PLAY_MS (fst (in_play i)) (snd (in_play i));
          s1 = s\<lparr>fs_playBtn := b\<rparr>
      in if e then
           (let s2 = s1\<lparr>fs_isPlaying := \<not> fs_isPlaying s1\<rparr>
            in if fs_isPlaying s2 then s2\<lparr>fs_nextStepAtMs := t_play i + fs_stepIntervalMs s2\<rparr>
               else if fs_noteActive s2
                    then s2\<lparr>fs_sent := fs_sent s2 @ [sendNoteOff DRUM_NOTE 0 MIDI_CHANNEL_fs],
                            fs_noteActive := False\<rparr>
                    else s2)
         else s1)"

text \<open>
  The gate of the single-voice sketch: \<open>uint16_t gate = GATE_MS_BASE;
  if (gate > stepIntervalMs) gate = stepIntervalMs - 10;\<close>. The comparison and the
  subtraction are unsigned 32-bit; the assignment keeps the low 16 bits.
\<close>

definition gate_fs :: "u32 \<Rightarrow> u16" where
  "gate_fs interval = (if ucast GATE_MS_BASE > interval then ucast (interval - 10) else GATE_MS_BASE)"

definition runSequencer_fs :: "u32 \<Rightarrow> fs_state \<Rightarrow> fs_state" where
  "runSequencer_fs now s =
     (let s1 = (if fs_noteActive s \<and> due now (fs_noteOffAtMs s)
                then s\<lparr>fs_sent := fs_sent s @ [sendNoteOff DRUM_NOTE 0 MIDI_CHANNEL_fs],
                       fs_noteActive := False\<rparr>
                else s)
      in if \<not> fs_isPlaying s1 then s1
         else if due now (fs_nextStepAtMs s1) then
           (let s2 = (if stepEnabled s1 ! unat (fs_stepIndex s1)
                      then s1\<lparr>fs_sent := fs_sent s1 @ [sendNoteOn DRUM_NOTE NOTE_VELOCITY MIDI_CHANNEL_fs],
                              fs_noteActive := True,
                              fs_noteOffAtMs := now + ucast (gate_fs (fs_stepIntervalMs s1))\<rparr>
                      else s1)
            in s2\<lparr>fs_stepIndex := (fs_stepIndex s2 + 1) AND 0x03,
                  fs_nextStepAtMs := now + fs_stepIntervalMs s2\<rparr>)
         else s1)"

definition loop_fs :: "inputs \<Rightarrow> fs_state \<Rightarrow> fs_state" where
  "loop_fs i s = runSequencer_fs (t_seq i) (handlePlayButton_fs i (handleStepButtons_fs (in_steps i) [0..<4] s))"

text \<open>
  The state \<open>setup()\<close> leaves: every step enabled, stopped, step 0, the interval of 127 BPM.
  The buttons start at the level read, \<open>t_seq\<close> is the last \<open>millis()\<close> of \<open>setup()\<close>.
\<close>

definition initBtn :: "u8 \<Rightarrow> u32 \<times> bool \<Rightarrow> Btn" where
  "initBtn p rd = \<lparr>pin = p, stable = snd rd, lastRead = snd rd, lastChangeMs = fst rd\<rparr>"

definition fixedInterval :: u32 where
  "fixedInterval = word_of_int (60000 div FIXED_BPM)"

definition setup_fs :: "inputs \<Rightarrow> fs_state" where
  "setup_fs i =
     \<lparr>fs_stepBtn = map (\<lambda>k. initBtn ([2, 3, 4, 5] ! k) (in_steps i ! k)) [0..<4],
      fs_playBtn = initBtn 10 (in_play i),
      stepEnabled = [True, True, True, True],
      fs_isPlaying = False,
      fs_stepIndex = 0,
      fs_stepIntervalMs = fixedInterval,
      fs_nextStepAtMs = t_seq i + fixedInterval,
      fs_noteActive = False,
      fs_noteOffAtMs = 0,
      fs_sent = []\<rparr>"

section \<open>The multi-voice sketches\<close>

text \<open>
  The globals shared by the multi-voice USB sketch, the DIN sketch and the swing sketch
  (which names two of them \<open>nextStepAt\<close> and \<open>noteOffAt\<close>), with the messages sent so far
  as \<open>sent\<close>. LED writes are left out.
\<close>

record seq_state =
  stepBtn :: "Btn list"
  playBtn :: Btn
  instBtn :: Btn
  pattern :: "bool list list"
  isPlaying :: bool
  stepIndex :: u8
  stepIntervalMs :: u32
  nextStepAtMs :: u32
  noteActive :: "bool list"
  noteOffAtMs :: "u32 list"
  currentVoice :: u8
  sent :: "midi_out list"

definition VOICE_COUNT :: nat where
  "VOICE_COUNT = 4"

text \<open>The arrays have \<open>VOICE_COUNT\<close> entries, as declared.\<close>

definition wf_voices :: "seq_state \<Rightarrow> bool" where
  "wf_voices s = (length (noteActive s) = VOICE_COUNT \<and> length (noteOffAtMs s) = VOICE_COUNT)"

text \<open>The two fixed-tempo multi-voice sketches differ in transport, notes and channel.\<close>

datatype transport = USB_MIDI | DIN_MIDI

fun VOICE_NOTES :: "transport \<Rightarrow> u8 list" where
  "VOICE_NOTES USB_MIDI = [36, 38, 42, 49]"
| "VOICE_NOTES DIN_MIDI = [60, 65, 72, 75]"

fun MIDI_CHANNEL :: "transport \<Rightarrow> u8" where
  "MIDI_CHANNEL USB_MIDI = 9"
| "MIDI_CHANNEL DIN_MIDI = 0"

fun noteOnMsg :: "transport \<Rightarrow> nat \<Rightarrow> midi_out" where
  "noteOnMsg USB_MIDI v = sendNoteOn (VOICE_NOTES USB_MIDI ! v) NOTE_VELOCITY (MIDI_CHANNEL USB_MIDI)"
| "noteOnMsg DIN_MIDI v = sendNoteOn_din (VOICE_NOTES DIN_MIDI ! v) NOTE_VELOCITY (MIDI_CHANNEL DIN_MIDI)"

fun noteOffMsg :: "transport \<Rightarrow> nat \<Rightarrow> midi_out" where
  "noteOffMsg USB_MIDI v = sendNoteOff (VOICE_NOTES USB_MIDI ! v) 0 (MIDI_CHANNEL USB_MIDI)"
| "noteOffMsg DIN_MIDI v = sendNoteOff_din (VOICE_NOTES DIN_MIDI ! v) 0 (MIDI_CHANNEL DIN_MIDI)"

text \<open>
  The note-off loop, \<open>for (v ...) if (noteActive[v] && <test on noteOffAtMs[v]>)
  { sendNoteOff(...); noteActive[v] = false; }\<close>, as recursion over the voice indices.
  \<open>msg v\<close> is the message the sketch sends for voice \<open>v\<close>; the test is the deadline test of
  the expiry loop and constantly true in the loop that runs on stop.
\<close>

fun notesOff :: "(nat \<Rightarrow> midi_out) \<Rightarrow> (u32 \<Rightarrow> bool) \<Rightarrow> nat list \<Rightarrow> seq_state \<Rightarrow> seq_state" where
  "notesOff msg test [] s = s"
| "notesOff msg test (v # vs) s =
     notesOff msg test vs
       (if noteActive s ! v \<and> test (noteOffAtMs s ! v)
        then s\<lparr>sent := sent s @ [msg v], noteActive := (noteActive s)[v := False]\<rparr>
        else s)"

text \<open>
  The note-on loop, \<open>for (v ...) if (pattern[v][stepIndex])
  { sendNoteOn(...); noteActive[v] = true; noteOffAtMs[v] = now + gate; }\<close>; \<open>deadline\<close> is
  \<open>now + gate\<close>, the same for every voice of one pass.
\<close>

fun notesOn :: "(nat \<Rightarrow> midi_out) \<Rightarrow> u32 \<Rightarrow> nat list \<Rightarrow> seq_state \<Rightarrow> seq_state" where
  "notesOn msg deadline [] s = s"
| "notesOn msg deadline (v # vs) s =
     notesOn msg deadline vs
       (if pattern s ! v ! unat (stepIndex s)
        then s\<lparr>sent := sent s @ [msg v], noteActive := (noteActive s)[v := True],
               noteOffAtMs := (noteOffAtMs s)[v := deadline]\<rparr>
        else s)"

text \<open>
  The step-button loop of the multi-voice sketches; \<open>poll\<close> is the sketch's debouncer
  (\<open>pollEdgeFalling\<close> or \<open>pollFalling\<close>). The swing sketch writes the windows as the
  literals 20 and 30, the values of the named constants.
\<close>

fun stepButtons ::
  "(Btn \<Rightarrow> u16 \<Rightarrow> u32 \<Rightarrow> bool \<Rightarrow> bool \<times> Btn) \<Rightarrow> (u32 \<times> bool) list \<Rightarrow> nat list \<Rightarrow> seq_state \<Rightarrow> seq_state" where
  "stepButtons poll rd [] s = s"
| "stepButtons poll rd (i # is) s =
     (let (e, b) = poll (stepBtn s ! i) DEBOUNCE_STEP_MS (fst (rd ! i)) (snd (rd ! i));
          s1 = s\<lparr>stepBtn := (stepBtn s)[i := b]\<rparr>;
          cv = unat (currentVoice s1);
          s2 = (if e then s1\<lparr>pattern := (pattern s1)[cv := (pattern s1 ! cv)[i := \<not> pattern s1 ! cv ! i]]\<rparr>
                else s1)
      in stepButtons poll rd is s2)"

definition handleInstrumentButton :: "inputs \<Rightarrow> seq_state \<Rightarrow> seq_state" where
  "handleInstrumentButton i s =
     (let (e, b) = pollEdgeFalling (instBtn s) DEBOUNCE_INST_MS (fst (in_inst i)) (snd (in_inst i));
          s1 = s\<lparr>instBtn := b\<rparr>
      in if e then s1\<lparr>currentVoice := (currentVoice s1 + 1) mod 4\<rparr> else s1)"

definition handleStepButtons :: "inputs \<Rightarrow> seq_state \<Rightarrow> seq_state" where
  "handleStepButtons i s = stepButtons pollEdgeFalling (in_steps i) [0..<4] s"

definition handlePlayButton :: "transport \<Rightarrow> inputs \<Rightarrow> seq_state \<Rightarrow> seq_state" where
  "handlePlayButton tr i s =
     (let (e, b) = pollEdgeFalling (playBtn s) DEBOUNCE_PLAY_MS (fst (in_play i)) (snd (in_play i));
          s1 = s\<lparr>playBtn := b\<rparr>
      in if e then
           (let s2 = s1\<lparr>isPlaying := \<not> isPlaying s1\<rparr>
            in if isPlaying s2 then s2\<lparr>nextStepAtMs := t_play i + stepIntervalMs s2\<rparr>
               else notesOff (noteOffMsg tr) (\<lambda>d. True) [0..<VOICE_COUNT] s2)
         else s1)"

text \<open>
  The gate of the two fixed-tempo multi-voice sketches: \<open>uint16_t gate = GATE_MS_BASE;
  if (gate > stepIntervalMs) gate = (stepIntervalMs > 10) ? (stepIntervalMs - 10) : stepIntervalMs;\<close>
\<close>

definition gate_mv :: "u32 \<Rightarrow> u16" where
  "gate_mv interval =
     (if ucast GATE_MS_BASE > interval
      then (if interval > 10 then ucast (interval - 10) else ucast interval)
      else GATE_MS_BASE)"

definition runSequencer :: "transport \<Rightarrow> u32 \<Rightarrow> seq_state \<Rightarrow> seq_state" where
  "runSequencer tr now s =
     (let s1 = notesOff (noteOffMsg tr) (due now) [0..<VOICE_COUNT] s
      in if \<not> isPlaying s1 then s1
         else if due now (nextStepAtMs s1) then
           (let s2 = notesOn (noteOnMsg tr) (now + ucast (gate_mv (stepIntervalMs s1))) [0..<VOICE_COUNT] s1
            in s2\<lparr>stepIndex := (stepIndex s2 + 1) AND 0x03,
                  nextStepAtMs := now + stepIntervalMs s2\<rparr>)
         else s1)"

definition loop_mv :: "transport \<Rightarrow> inputs \<Rightarrow> seq_state \<Rightarrow> seq_state" where
  "loop_mv tr i s =
     runSequencer tr (t_seq i) (handlePlayButton tr i (handleStepButtons i (handleInstrumentButton i s)))"

definition setup_mv :: "inputs \<Rightarrow> seq_state" where
  "setup_mv i =
     \<lparr>stepBtn = map (\<lambda>k. initBtn ([2, 3, 4, 5] ! k) (in_steps i ! k)) [0..<4],
      playBtn = initBtn 10 (in_play i),
      instBtn = initBtn 16 (in_inst i),
      pattern = replicate VOICE_COUNT (replicate 4 False),
      isPlaying = False,
      stepIndex = 0,
      stepIntervalMs = fixedInterval,
      nextStepAtMs = t_seq i + fixedInterval,
      noteActive = replicate VOICE_COUNT False,
      noteOffAtMs = replicate VOICE_COUNT 0,
      currentVoice = 0,
      sent = []\<rparr>"

section \<open>Single-precision arithmetic\<close>

text \<open>
  The swing sketch computes tempo and swing in \<open>float\<close>, IEEE 754 binary32. A \<open>float\<close> is
  modelled by the real number it denotes and every \<open>float\<close> operation of the sketch by the
  exact operation on reals followed by \<open>fl\<close>, the rounding to the nearest binary32 number,
  ties to the even significand. \<open>rne\<close> rounds a real to the nearest integer, ties to even.
  \<open>expo n x\<close> searches the exponent \<open>e\<close> with \<open>2^e \<le> x < 2^(e+1)\<close> by at most \<open>n\<close> halvings or
  doublings. \<open>fl x\<close> rounds \<open>x\<close> to a multiple of \<open>2^(e-23)\<close> for the exponent \<open>e\<close> of \<open>\<bar>x\<bar>\<close>
  (24 significant bits), and to a multiple of \<open>2^(-149)\<close> below the normal range.
  Infinities and NaN are not represented: the sketch divides only by a tempo above 0.5
  and none of its values comes near \<open>2^128\<close>.
\<close>

definition rne :: "real \<Rightarrow> int" where
  "rne x = (let f = \<lfloor>x\<rfloor>; d = x - of_int f
            in if d < 1 / 2 then f else if 1 / 2 < d then f + 1 else if even f then f else f + 1)"

fun expo :: "nat \<Rightarrow> real \<Rightarrow> int" where
  "expo 0 x = 0"
| "expo (Suc n) x = (if 2 \<le> x then expo n (x / 2) + 1 else if x < 1 then expo n (x * 2) - 1 else 0)"

definition fl :: "real \<Rightarrow> real" where
  "fl x = (let e = (if \<bar>x\<bar> < 2 powi (- 126) then - 126 else expo 300 \<bar>x\<bar>);
               u = 2 powi (e - 23)
           in of_int (rne (x / u)) * u)"

section \<open>The swing sketch\<close>

text \<open>
  A cast from \<open>float\<close> to an integer type drops the fraction (\<open>trunc_int\<close>); a conversion
  from an integer type to \<open>float\<close> rounds (\<open>fl\<close>).
\<close>

definition trunc_int :: "real \<Rightarrow> int" where
  "trunc_int x = (if x < 0 then \<lceil>x\<rceil> else \<lfloor>x\<rfloor>)"

definition VOICE_NOTES_sw :: "u8 list" where
  "VOICE_NOTES_sw = [36, 38, 42, 49]"

definition GATE_MS :: u16 where
  "GATE_MS = 60"

text \<open>\<open>const float MAX_SWING_RATIO = 0.6f\<close>: the binary32 number nearest to 6/10.\<close>

definition MAX_SWING_RATIO :: real where
  "MAX_SWING_RATIO = fl (6 / 10)"

definition noteOnMsg_sw :: "nat \<Rightarrow> midi_out" where
  "noteOnMsg_sw v = sendNoteOn_sw (VOICE_NOTES_sw ! v)"

definition noteOffMsg_sw :: "nat \<Rightarrow> midi_out" where
  "noteOffMsg_sw v = sendNoteOff_sw (VOICE_NOTES_sw ! v)"

text \<open>\<open>float bpm = (tempoRaw / 1023.0f) * 240.0f\<close>\<close>

definition bpm_of :: "int \<Rightarrow> real" where
  "bpm_of raw = fl (fl (fl (real_of_int raw) / 1023) * 240)"

text \<open>\<open>swingNorm = (swingRaw - 512) / 512.0f; swingRatio = swingNorm * MAX_SWING_RATIO\<close>\<close>

definition swingRatio_of :: "int \<Rightarrow> real" where
  "swingRatio_of raw = fl (fl (fl (real_of_int (raw - 512)) / 512) * MAX_SWING_RATIO)"

text \<open>
  The interval armed at a step boundary: \<open>base = (int32_t)stepIntervalMs\<close>,
  \<open>offset = (int32_t)(base * swingRatio)\<close>, \<open>delta = base - offset\<close> on an even
  \<open>stepIndex\<close> and \<open>base + offset\<close> on an odd one, raised to 1 when below. The product is
  a \<open>float\<close> product: \<open>base\<close> is converted to \<open>float\<close>, the product rounded, the result
  truncated.
\<close>

definition swing_offset :: "u32 \<Rightarrow> real \<Rightarrow> int" where
  "swing_offset interval ratio = trunc_int (fl (fl (real_of_int (sint interval)) * ratio))"

definition swing_delta :: "u8 \<Rightarrow> u32 \<Rightarrow> real \<Rightarrow> int" where
  "swing_delta idx interval ratio =
     (let base = sint interval;
          offset = swing_offset interval ratio;
          delta = (if unat idx mod 2 = 0 then base - offset else base + offset)
      in if delta < 1 then 1 else delta)"

text \<open>The first three blocks of \<open>loop()\<close>: instrument select, step buttons, play toggle.\<close>

definition selectVoice_sw :: "inputs \<Rightarrow> seq_state \<Rightarrow> seq_state" where
  "selectVoice_sw i s =
     (let (e, b) = pollFalling (instBtn s) 30 (fst (in_inst i)) (snd (in_inst i));
          s1 = s\<lparr>instBtn := b\<rparr>
      in if e then s1\<lparr>currentVoice := (currentVoice s1 + 1) mod 4\<rparr> else s1)"

definition playToggle_sw :: "inputs \<Rightarrow> seq_state \<Rightarrow> seq_state" where
  "playToggle_sw i s =
     (let (e, b) = pollFalling (playBtn s) 30 (fst (in_play i)) (snd (in_play i));
          s1 = s\<lparr>playBtn := b\<rparr>
      in if e then
           (let s2 = s1\<lparr>isPlaying := \<not> isPlaying s1, stepIndex := 0, nextStepAtMs := t_seq i\<rparr>
            in if \<not> isPlaying s2 then notesOff noteOffMsg_sw (\<lambda>d. True) [0..<VOICE_COUNT] s2 else s2)
         else s1)"

text \<open>
  The rest of \<open>loop()\<close>, from the tempo read on: the early return at (near) zero tempo,
  the interval, the note-off loop, the return when stopped, and the step advance.
\<close>

definition sequencer_sw :: "inputs \<Rightarrow> seq_state \<Rightarrow> seq_state" where
  "sequencer_sw i s =
     (let now = t_seq i;
          bpm = bpm_of (tempoRaw i)
      in if bpm \<le> 0.5 then s
         else
           (let s1 = s\<lparr>stepIntervalMs := word_of_int (trunc_int (fl (60000 / bpm)))\<rparr>;
                swingRatio = swingRatio_of (swingRaw i);
                s2 = notesOff noteOffMsg_sw (due_sw now) [0..<VOICE_COUNT] s1
            in if \<not> isPlaying s2 then s2
               else if due_sw now (nextStepAtMs s2) then
                 (let s3 = notesOn noteOnMsg_sw (now + ucast GATE_MS) [0..<VOICE_COUNT] s2;
                      delta = swing_delta (stepIndex s3) (stepIntervalMs s3) swingRatio
                  in s3\<lparr>nextStepAtMs := now + word_of_int delta,
                        stepIndex := (stepIndex s3 + 1) AND 0x03\<rparr>)
               else s2))"

definition loop_sw :: "inputs \<Rightarrow> seq_state \<Rightarrow> seq_state" where
  "loop_sw i s =
     sequencer_sw i (playToggle_sw i (stepButtons pollFalling (in_steps i) [0..<4] (selectVoice_sw i s)))"

definition setup_sw :: seq_state where
  "setup_sw =
     \<lparr>stepBtn = map (\<lambda>k. \<lparr>pin = [2, 3, 4, 5] ! k, stable = True, lastRead = True, lastChangeMs = 0\<rparr>) [0..<4],
      playBtn = \<lparr>pin = 10, stable = True, lastRead = True, lastChangeMs = 0\<rparr>,
      instBtn = \<lparr>pin = 16, stable = True, lastRead = True, lastChangeMs = 0\<rparr>,
      pattern = replicate VOICE_COUNT (replicate 4 False),
      isPlaying = False,
      stepIndex = 0,
      stepIntervalMs = 0,
      nextStepAtMs = 0,
      noteActive = replicate VOICE_COUNT False,
      noteOffAtMs = replicate VOICE_COUNT 0,
      currentVoice = 0,
      sent = []\<rparr>"

section \<open>Observing a run\<close>

text \<open>
  The step indices a run passes through: \<open>f\<close> is one pass, \<open>ev i s\<close> says that the pass
  with inputs \<open>i\<close> from state \<open>s\<close> takes the step branch, \<open>idx\<close> reads the step index. The
  result lists the index after each pass that took the step branch, in order.
\<close>

fun visited :: "('i \<Rightarrow> 's \<Rightarrow> 's) \<Rightarrow> ('i \<Rightarrow> 's \<Rightarrow> bool) \<Rightarrow> ('s \<Rightarrow> u8) \<Rightarrow> 's \<Rightarrow> 'i list \<Rightarrow> u8 list" where
  "visited f ev idx s [] = []"
| "visited f ev idx s (i # is) =
     (if ev i s then [idx (f i s)] else []) @ visited f ev idx (f i s) is"

text \<open>
  Whether a pass takes the step branch: the test \<open>runSequencer\<close> makes, on the state the
  handlers before it leave. In the swing sketch the branch also needs a tempo above the
  stop threshold (the early return comes first).
\<close>

definition stepDue_fs :: "inputs \<Rightarrow> fs_state \<Rightarrow> bool" where
  "stepDue_fs i s =
     (let s1 = handlePlayButton_fs i (handleStepButtons_fs (in_steps i) [0..<4] s)
      in fs_isPlaying s1 \<and> due (t_seq i) (fs_nextStepAtMs s1))"

definition stepDue_mv :: "transport \<Rightarrow> inputs \<Rightarrow> seq_state \<Rightarrow> bool" where
  "stepDue_mv tr i s =
     (let s1 = handlePlayButton tr i (handleStepButtons i (handleInstrumentButton i s))
      in isPlaying s1 \<and> due (t_seq i) (nextStepAtMs s1))"

definition stepDue_sw :: "inputs \<Rightarrow> seq_state \<Rightarrow> bool" where
  "stepDue_sw i s =
     (\<not> bpm_of (tempoRaw i) \<le> 0.5 \<and> isPlaying s \<and> due_sw (t_seq i) (nextStepAtMs s))"

text \<open>
  The swing sketch seen from the top of \<open>loop()\<close>: whether the pass takes the step branch
  (on the state its play toggle leaves), whether the play button's debounced edge arrives
  in the pass, and whether it arrives in no pass of a run.
\<close>

definition stepDue_loop_sw :: "inputs \<Rightarrow> seq_state \<Rightarrow> bool" where
  "stepDue_loop_sw i s =
     stepDue_sw i (playToggle_sw i (stepButtons pollFalling (in_steps i) [0..<4] (selectVoice_sw i s)))"

definition playEdge_sw :: "inputs \<Rightarrow> seq_state \<Rightarrow> bool" where
  "playEdge_sw i s = fst (pollFalling (playBtn s) 30 (fst (in_play i)) (snd (in_play i)))"

fun no_play_edge :: "seq_state \<Rightarrow> inputs list \<Rightarrow> bool" where
  "no_play_edge s [] = True"
| "no_play_edge s (i # is) = (\<not> playEdge_sw i s \<and> no_play_edge (loop_sw i s) is)"

text \<open>
  Whether the step that a pass takes triggers a note: the pattern entry that the note-on
  loop tests, on the state the handlers before it leave (voice \<open>v\<close> in the multi-voice
  sketches).
\<close>

definition triggered_fs :: "inputs \<Rightarrow> fs_state \<Rightarrow> bool" where
  "triggered_fs i s =
     (let s1 = handlePlayButton_fs i (handleStepButtons_fs (in_steps i) [0..<4] s)
      in stepEnabled s1 ! unat (fs_stepIndex s1))"

definition triggered_mv :: "transport \<Rightarrow> inputs \<Rightarrow> seq_state \<Rightarrow> nat \<Rightarrow> bool" where
  "triggered_mv tr i s v =
     (let s1 = handlePlayButton tr i (handleStepButtons i (handleInstrumentButton i s))
      in pattern s1 ! v ! unat (stepIndex s1))"

definition triggered_sw :: "inputs \<Rightarrow> seq_state \<Rightarrow> nat \<Rightarrow> bool" where
  "triggered_sw i s v =
     (let s1 = playToggle_sw i (stepButtons pollFalling (in_steps i) [0..<4] (selectVoice_sw i s))
      in pattern s1 ! v ! unat (stepIndex s1))"

text \<open>
  The readings \<open>analogRead\<close> can return: the converter has 10 bits, so both pots read
  0..1023.
\<close>

definition adc_range :: "inputs \<Rightarrow> bool" where
  "adc_range i = (0 \<le> tempoRaw i \<and> tempoRaw i \<le> 1023 \<and> 0 \<le> swingRaw i \<and> swingRaw i \<le> 1023)"

text \<open>
  The two kinds of message the sketches may send: a Note Off (and not a Note On) with
  velocity 0, or a Note On (and not a Note Off) with velocity \<open>NOTE_VELOCITY\<close>.
\<close>

definition note_msg_ok :: "midi_out \<Rightarrow> bool" where
  "note_msg_ok m =
     ((is_note_off m \<and> \<not> is_note_on m \<and> velocity_of m = 0)
      \<or> (is_note_on m \<and> \<not> is_note_off m \<and> velocity_of m = NOTE_VELOCITY))"

text \<open>
  \<open>only_sends P old new\<close>: the log \<open>new\<close> is the log \<open>old\<close> followed by messages that all
  satisfy \<open>P\<close>.
\<close>

definition only_sends :: "(midi_out \<Rightarrow> bool) \<Rightarrow> midi_out list \<Rightarrow> midi_out list \<Rightarrow> bool" where
  "only_sends P old new = (take (length old) new = old \<and> list_all P (drop (length old) new))"

section \<open>Test inputs\<close>

text \<open>
  Inputs and states used to run the sketches on concrete values. \<open>idle_inputs t\<close> is a
  pass at time \<open>t\<close> in which no button is pressed (every raw level \<open>HIGH\<close>), the tempo pot
  is at its top (1023, 240 BPM) and the swing pot at its centre (512).
\<close>

definition idleBtn :: "u8 \<Rightarrow> Btn" where
  "idleBtn p = \<lparr>pin = p, stable = True, lastRead = True, lastChangeMs = 0\<rparr>"

definition idle_inputs :: "u32 \<Rightarrow> inputs" where
  "idle_inputs t =
     \<lparr>in_inst = (t, True), in_steps = [(t, True), (t, True), (t, True), (t, True)],
      in_play = (t, True), t_play = t, t_seq = t, tempoRaw = 1023, swingRaw = 512\<rparr>"

text \<open>
  The single-voice sketch while playing: every step enabled, step 0, the interval of
  127 BPM, the next step due at \<open>t\<close>, no note sounding.
\<close>

definition demo_fs :: "u32 \<Rightarrow> fs_state" where
  "demo_fs t =
     \<lparr>fs_stepBtn = [idleBtn 2, idleBtn 3, idleBtn 4, idleBtn 5],
      fs_playBtn = idleBtn 10,
      stepEnabled = [True, True, True, True],
      fs_isPlaying = True,
      fs_stepIndex = 0,
      fs_stepIntervalMs = 472,
      fs_nextStepAtMs = t,
      fs_noteActive = False,
      fs_noteOffAtMs = 0,
      fs_sent = []\<rparr>"

text \<open>The voices that are sounding, in index order.\<close>

definition sounding :: "seq_state \<Rightarrow> nat list" where
  "sounding s = filter (\<lambda>v. noteActive s ! v) [0..<VOICE_COUNT]"

text \<open>\<open>run f s is\<close>: the passes with inputs \<open>is\<close>, one after the other, from state \<open>s\<close>.\<close>

fun run :: "('i \<Rightarrow> 's \<Rightarrow> 's) \<Rightarrow> 's \<Rightarrow> 'i list \<Rightarrow> 's" where
  "run f s [] = s"
| "run f s (i # is) = run f (f i s) is"

text \<open>\<open>stays_stopped f playing s is\<close>: the engine is stopped after each pass of the run.\<close>

fun stays_stopped :: "('i \<Rightarrow> 's \<Rightarrow> 's) \<Rightarrow> ('s \<Rightarrow> bool) \<Rightarrow> 's \<Rightarrow> 'i list \<Rightarrow> bool" where
  "stays_stopped f playing s [] = True"
| "stays_stopped f playing s (i # is) = (\<not> playing (f i s) \<and> stays_stopped f playing (f i s) is)"

text \<open>
  A button whose raw level went \<open>LOW\<close> at time 0 and is not yet committed, and a pass at
  time \<open>t\<close> in which only the play button is held down.
\<close>

definition pressedBtn :: "u8 \<Rightarrow> Btn" where
  "pressedBtn p = \<lparr>pin = p, stable = True, lastRead = False, lastChangeMs = 0\<rparr>"

definition press_inputs :: "u32 \<Rightarrow> inputs" where
  "press_inputs t = (idle_inputs t)\<lparr>in_play := (t, False)\<rparr>"

text \<open>
  A multi-voice sketch while playing, voices 0 and 2 sounding until \<open>off\<close>, the next step
  due at \<open>next\<close>, the play button in state \<open>pb\<close>; voice 0 is triggered on steps 0 and 1,
  voice 2 on step 0.
\<close>

definition demo_mv :: "Btn \<Rightarrow> u32 \<Rightarrow> u32 \<Rightarrow> seq_state" where
  "demo_mv pb next off =
     \<lparr>stepBtn = [idleBtn 2, idleBtn 3, idleBtn 4, idleBtn 5],
      playBtn = pb,
      instBtn = idleBtn 16,
      pattern = [[True, True, False, False], [False, False, False, False],
                 [True, False, False, False], [False, False, False, False]],
      isPlaying = True,
      stepIndex = 1,
      stepIntervalMs = 472,
      nextStepAtMs = next,
      noteActive = [True, False, True, False],
      noteOffAtMs = [off, 0, off, 0],
      currentVoice = 0,
      sent = []\<rparr>"

text \<open>
  The swing sketch after \<open>setup()\<close> and passes in which only the play button was used: no
  step programmed, no voice sounding, the play button in state \<open>pb\<close>, the transport
  \<open>pl\<close>, the step index \<open>idx\<close>, the next step due at \<open>nxt\<close>, the interval \<open>iv\<close>.
\<close>

definition quiet_sw :: "Btn \<Rightarrow> bool \<Rightarrow> u8 \<Rightarrow> u32 \<Rightarrow> u32 \<Rightarrow> seq_state" where
  "quiet_sw pb pl idx nxt iv =
     setup_sw\<lparr>playBtn := pb, isPlaying := pl, stepIndex := idx, nextStepAtMs := nxt, stepIntervalMs := iv\<rparr>"

section \<open>The gate rule as the specification words it\<close>

text \<open>
  The specification's rule for the armed gate, from its words and not from the sketches:
  the gate is \<open>min g (I - margin)\<close> with a margin of 10 ms, and the whole interval \<open>I\<close>
  when that is not positive. \<open>spec_offDeadline\<close> is the deadline it arms at time \<open>now\<close>.
\<close>

definition spec_gate :: "int \<Rightarrow> int \<Rightarrow> int" where
  "spec_gate g interval = (let clamped = min g (interval - 10) in if clamped \<le> 0 then interval else clamped)"

definition spec_offDeadline :: "u32 \<Rightarrow> u16 \<Rightarrow> u32 \<Rightarrow> u32" where
  "spec_offDeadline now g interval = now + word_of_int (spec_gate (uint g) (uint interval))"

section \<open>Pairing of Note On and Note Off in the fixed-tempo multi-voice sketches\<close>

text \<open>
  \<open>paired s\<close>: the arrays have their size, no voice sounds while the engine is stopped,
  and the deadline of every sounding voice lies at most one step interval before the
  next-step deadline (as an unsigned difference).
\<close>

definition paired :: "seq_state \<Rightarrow> bool" where
  "paired s =
     (wf_voices s \<and> (isPlaying s \<or> sounding s = [])
      \<and> list_all (\<lambda>v. \<not> noteActive s ! v \<or> nextStepAtMs s - noteOffAtMs s ! v \<le> stepIntervalMs s)
            [0..<VOICE_COUNT])"

text \<open>
  \<open>timely now s\<close>: the pass at time \<open>now\<close> comes less than \<open>2^31\<close> ms, minus one step
  interval, after the next-step deadline (about 24 days).
\<close>

definition timely :: "u32 \<Rightarrow> seq_state \<Rightarrow> bool" where
  "timely now s = (uint (now - nextStepAtMs s) + uint (stepIntervalMs s) < 2 ^ 31)"

section \<open>Properties of the debouncer\<close>

lemma poll_run_append:
  "poll_run b w (xs @ ys) =
     (fst (poll_run b w xs) @ fst (poll_run (snd (poll_run b w xs)) w ys),
      snd (poll_run (snd (poll_run b w xs)) w ys))"
  by (induction xs arbitrary: b) (auto simp: Let_def split: prod.splits)

lemma idle_poll:
  assumes "r = stable b"
  shows "fst (pollEdgeFalling b w now r) = False"
    and "stable (snd (pollEdgeFalling b w now r)) = stable b"
    and "lastRead (snd (pollEdgeFalling b w now r)) = stable b"
  using assms by (auto simp: pollEdgeFalling_def Let_def)

lemma idle_run:
  assumes "\<forall>p \<in> set ps. snd p = stable b"
  shows "(\<forall>e \<in> set (fst (poll_run b w ps)). \<not> e)
       \<and> stable (snd (poll_run b w ps)) = stable b
       \<and> (ps \<noteq> [] \<longrightarrow> lastRead (snd (poll_run b w ps)) = stable b)"
  using assms
proof (induction ps arbitrary: b)
  case Nil
  then show ?case by simp
next
  case (Cons p ps)
  let ?b1 = "snd (pollEdgeFalling b w (fst p) (snd p))"
  from Cons.prems have r: "snd p = stable b" by simp
  have s1: "stable ?b1 = stable b" and l1: "lastRead ?b1 = stable b"
    and e1: "fst (pollEdgeFalling b w (fst p) (snd p)) = False"
    using idle_poll [OF r] by simp_all
  from Cons.prems s1 have "\<forall>q \<in> set ps. snd q = stable ?b1" by simp
  from Cons.IH [OF this] s1 l1 e1 show ?case
    by (cases ps) (auto simp: Let_def split: prod.splits)
qed

lemma burst_run:
  assumes "lastRead b = stable b \<or> (\<forall>p \<in> set ps. fst p - lastChangeMs b \<le> ucast w)"
    and "within_span (ucast w) (map fst ps)"
  shows "(\<forall>e \<in> set (fst (poll_run b w ps)). \<not> e) \<and> stable (snd (poll_run b w ps)) = stable b"
  using assms
proof (induction ps arbitrary: b)
  case Nil
  then show ?case by simp
next
  case (Cons p ps)
  let ?res = "pollEdgeFalling b w (fst p) (snd p)"
  let ?b1 = "snd ?res"
  have step: "fst ?res = False \<and> stable ?b1 = stable b
      \<and> (lastRead ?b1 = stable ?b1 \<or> (\<forall>q \<in> set ps. fst q - lastChangeMs ?b1 \<le> ucast w))"
  proof (cases "snd p = lastRead b")
    case True
    with Cons.prems(1) show ?thesis
      by (auto simp: pollEdgeFalling_def Let_def not_less)
  next
    case False
    with Cons.prems(2) show ?thesis
      by (auto simp: pollEdgeFalling_def Let_def not_less)
  qed
  from Cons.prems(2) have "within_span (ucast w) (map fst ps)" by simp
  from Cons.IH [OF _ this, of ?b1] step show ?case
    by (auto simp: Let_def split: prod.splits)
qed

lemma pollFalling_eq: "pollFalling b w now r = pollEdgeFalling b w now r"
  by (simp add: pollFalling_def pollEdgeFalling_def Let_def)

lemma poll_run_sw_eq: "poll_run_sw b w ps = poll_run b w ps"
  by (induction ps arbitrary: b) (simp_all add: pollFalling_eq)

text \<open>
  Claim C7 (debounce stability). Take a button with stable level \<open>L\<close> and a run of polls
  \<open>pre @ burst @ post\<close>: during \<open>pre\<close> and \<open>post\<close> the raw level reads \<open>L\<close>; the polls of
  \<open>burst\<close>, where the raw level may flip at will, all fall within one debounce window
  (every later poll at most \<open>w\<close> ms after every earlier one). If the button starts with a
  raw change already pending (\<open>lastRead \<noteq> stable\<close>) and \<open>pre\<close> is empty, that change counts
  as part of the burst. Then the stable level is still \<open>L\<close> after the run and no call of
  the run reports an edge, both for \<open>pollEdgeFalling\<close> of the fixed-tempo sketches
  (\<open>poll_run\<close>) and for \<open>pollFalling\<close> of the swing sketch (\<open>poll_run_sw\<close>).
\<close>

theorem debounce_stability:
  assumes idle: "\<forall>p \<in> set pre \<union> set post. snd p = stable b"
    and span: "within_span (ucast w) (map fst burst)"
    and start: "pre = [] \<longrightarrow>
          lastRead b = stable b \<or> (\<forall>p \<in> set burst. fst p - lastChangeMs b \<le> ucast w)"
  shows "stable (snd (poll_run b w (pre @ burst @ post))) = stable b
       \<and> (\<forall>e \<in> set (fst (poll_run b w (pre @ burst @ post))). \<not> e)
       \<and> stable (snd (poll_run_sw b w (pre @ burst @ post))) = stable b
       \<and> (\<forall>e \<in> set (fst (poll_run_sw b w (pre @ burst @ post))). \<not> e)"
proof -
  let ?b1 = "snd (poll_run b w pre)"
  let ?b2 = "snd (poll_run ?b1 w burst)"
  from idle have ipre: "\<forall>p \<in> set pre. snd p = stable b" by simp
  note A = idle_run [OF ipre, of w]
  have st: "lastRead ?b1 = stable ?b1 \<or> (\<forall>p \<in> set burst. fst p - lastChangeMs ?b1 \<le> ucast w)"
  proof (cases "pre = []")
    case True
    with start show ?thesis by simp
  next
    case False
    with A show ?thesis by simp
  qed
  note B = burst_run [OF st span]
  from idle A B have "\<forall>p \<in> set post. snd p = stable ?b2" by simp
  note C = idle_run [OF this, of w]
  from A B C have "stable (snd (poll_run b w (pre @ burst @ post))) = stable b
       \<and> (\<forall>e \<in> set (fst (poll_run b w (pre @ burst @ post))). \<not> e)"
    by (simp add: poll_run_append) blast
  then show ?thesis unfolding poll_run_sw_eq by (intro conjI) (elim conjE, assumption)+
qed


lemma edges_none: "(\<forall>e \<in> set es. \<not> e) \<Longrightarrow> edges es = 0"
  by (induction es) (auto simp: edges_def)

lemma pending_run:
  assumes "lastRead b \<noteq> stable b"
    and "\<forall>p \<in> set ps. snd p = lastRead b"
    and "\<exists>p \<in> set ps. fst p - lastChangeMs b > ucast w"
  shows "edges (fst (poll_run b w ps)) = (if stable b then 1 else 0)
       \<and> stable (snd (poll_run b w ps)) = lastRead b
       \<and> lastRead (snd (poll_run b w ps)) = lastRead b"
  using assms
proof (induction ps arbitrary: b)
  case Nil
  then show ?case by simp
next
  case (Cons p ps)
  let ?res = "pollEdgeFalling b w (fst p) (snd p)"
  let ?b1 = "snd ?res"
  from Cons.prems have r: "snd p = lastRead b" by simp
  show ?case
  proof (cases "fst p - lastChangeMs b > ucast w")
    case True
    with r Cons.prems(1) have c: "fst ?res = stable b" "stable ?b1 = lastRead b"
        "lastRead ?b1 = lastRead b"
      by (auto simp: pollEdgeFalling_def Let_def)
    with Cons.prems(2) have "\<forall>q \<in> set ps. snd q = stable ?b1" by simp
    from idle_run [OF this, of w] c
    have "edges (fst (poll_run ?b1 w ps)) = 0"
      and "stable (snd (poll_run ?b1 w ps)) = lastRead b"
      and "lastRead (snd (poll_run ?b1 w ps)) = lastRead b"
      by (cases ps; simp add: edges_none)+
    with c show ?thesis
      by (auto simp: Let_def edges_def split: prod.splits)
  next
    case False
    with r have same: "?res = (False, b)"
      by (auto simp: pollEdgeFalling_def Let_def)
    from False Cons.prems(3) have "\<exists>q \<in> set ps. fst q - lastChangeMs b > ucast w" by auto
    from Cons.IH [OF Cons.prems(1) _ this] Cons.prems(2) same show ?thesis
      by (auto simp: Let_def edges_def split: prod.splits)
  qed
qed

lemma phase_run:
  assumes settled: "lastRead b = stable b"
    and ne: "ps \<noteq> []"
    and lvl: "\<forall>p \<in> set ps. snd p = (\<not> stable b)"
    and held: "\<exists>p \<in> set ps. fst p - fst (hd ps) > ucast w"
  shows "edges (fst (poll_run b w ps)) = (if stable b then 1 else 0)
       \<and> stable (snd (poll_run b w ps)) = (\<not> stable b)
       \<and> lastRead (snd (poll_run b w ps)) = (\<not> stable b)"
proof -
  from ne obtain p qs where ps: "ps = p # qs" by (cases ps) auto
  let ?res = "pollEdgeFalling b w (fst p) (snd p)"
  let ?b1 = "snd ?res"
  from lvl ps settled have first: "?res = (False, b\<lparr>lastChangeMs := fst p, lastRead := \<not> stable b\<rparr>)"
    by (auto simp: pollEdgeFalling_def Let_def)
  from held ps have h3: "\<exists>q \<in> set qs. fst q - lastChangeMs ?b1 > ucast w"
    using first by auto
  from lvl ps first have h2: "\<forall>q \<in> set qs. snd q = lastRead ?b1" by simp
  from first have h1: "lastRead ?b1 \<noteq> stable ?b1" by simp
  note pending_run [OF h1 h2 h3]
  with first ps show ?thesis
    by (auto simp: Let_def edges_def split: prod.splits)
qed

lemma edges_append: "edges (xs @ ys) = edges xs + edges ys"
  by (simp add: edges_def)

text \<open>
  Claim C8 (edge count). Start from an idle button (stable and last-read level \<open>HIGH\<close>).
  Poll it while the raw level is \<open>LOW\<close> (\<open>press\<close>), with some poll more than \<open>w\<close> ms after
  the first \<open>LOW\<close> poll, then while it is \<open>HIGH\<close> (\<open>release\<close>), again with some poll more than
  \<open>w\<close> ms after the first \<open>HIGH\<close> poll. Then exactly one call of the press phase returns
  \<open>true\<close> and commits \<open>LOW\<close>, no call of the release phase does although it commits \<open>HIGH\<close>
  again, and the whole run reports one edge. For any single call: it returns \<open>true\<close> only
  when the stable level was \<open>HIGH\<close> before and is \<open>LOW\<close> after.
\<close>

theorem press_release_one_edge:
  assumes idle: "stable b" "lastRead b"
    and press: "press \<noteq> []" "\<forall>p \<in> set press. \<not> snd p"
       "\<exists>p \<in> set press. fst p - fst (hd press) > ucast w"
    and release: "release \<noteq> []" "\<forall>p \<in> set release. snd p"
       "\<exists>p \<in> set release. fst p - fst (hd release) > ucast w"
  shows "edges (fst (poll_run b w press)) = 1
       \<and> \<not> stable (snd (poll_run b w press))
       \<and> edges (fst (poll_run (snd (poll_run b w press)) w release)) = 0
       \<and> stable (snd (poll_run b w (press @ release)))
       \<and> edges (fst (poll_run b w (press @ release))) = 1
       \<and> (\<forall>b0 now r. fst (pollEdgeFalling b0 w now r) \<longrightarrow>
             stable b0 \<and> \<not> stable (snd (pollEdgeFalling b0 w now r)))"
proof -
  let ?b1 = "snd (poll_run b w press)"
  have P: "edges (fst (poll_run b w press)) = 1 \<and> \<not> stable ?b1 \<and> \<not> lastRead ?b1"
    using phase_run [of b press w] idle press by simp
  have R: "edges (fst (poll_run ?b1 w release)) = 0 \<and> stable (snd (poll_run ?b1 w release))"
    using phase_run [of ?b1 release w] P release by simp
  have G: "\<forall>b0 now r. fst (pollEdgeFalling b0 w now r) \<longrightarrow>
             stable b0 \<and> \<not> stable (snd (pollEdgeFalling b0 w now r))"
    by (auto simp: pollEdgeFalling_def Let_def)
  from P R G show ?thesis
    by (simp add: poll_run_append edges_append)
qed


theorem debounce_stability_witness:
  "within_span (ucast (30 :: u16)) (map fst [(1005, False), (1010, True), (1012, False), (1020 :: u32, True)])
   \<and> stable (snd (poll_run \<lparr>pin = 10, stable = True, lastRead = True, lastChangeMs = 0\<rparr> 30
         ([(1000, True)] @ [(1005, False), (1010, True), (1012, False), (1020, True)] @ [(2000, True)])))
       = stable \<lparr>pin = 10, stable = True, lastRead = True, lastChangeMs = 0\<rparr>
   \<and> edges (fst (poll_run \<lparr>pin = 10, stable = True, lastRead = True, lastChangeMs = 0\<rparr> 30
         ([(1000, True)] @ [(1005, False), (1010, True), (1012, False), (1020, True)] @ [(2000, True)]))) = 0
   \<and> stable (snd (poll_run_sw \<lparr>pin = 10, stable = True, lastRead = True, lastChangeMs = 0\<rparr> 30
         ([(1000, True)] @ [(1005, False), (1010, True), (1012, False), (1020, True)] @ [(2000, True)])))
       = stable \<lparr>pin = 10, stable = True, lastRead = True, lastChangeMs = 0\<rparr>
   \<and> edges (fst (poll_run_sw \<lparr>pin = 10, stable = True, lastRead = True, lastChangeMs = 0\<rparr> 30
         ([(1000, True)] @ [(1005, False), (1010, True), (1012, False), (1020, True)] @ [(2000, True)]))) = 0"
proof -
  have h1: "\<forall>p \<in> set [(1000 :: u32, True)] \<union> set [(2000, True)].
       snd p = stable \<lparr>pin = 10, stable = True, lastRead = True, lastChangeMs = 0\<rparr>"
    by simp
  have h2: "within_span (ucast (30 :: u16))
       (map fst [(1005, False), (1010, True), (1012, False), (1020 :: u32, True)])"
    by simp
  have h3: "[(1000 :: u32, True)] = [] \<longrightarrow>
       lastRead \<lparr>pin = 10, stable = True, lastRead = True, lastChangeMs = 0\<rparr>
         = stable \<lparr>pin = 10, stable = True, lastRead = True, lastChangeMs = 0\<rparr>
       \<or> (\<forall>p \<in> set [(1005, False), (1010, True), (1012, False), (1020 :: u32, True)].
             fst p - lastChangeMs \<lparr>pin = 10, stable = True, lastRead = True, lastChangeMs = 0\<rparr>
               \<le> ucast (30 :: u16))"
    by simp
  note c = debounce_stability [OF h1 h2 h3]
  from c have e: "edges (fst (poll_run \<lparr>pin = 10, stable = True, lastRead = True, lastChangeMs = 0\<rparr> 30
         ([(1000, True)] @ [(1005, False), (1010, True), (1012, False), (1020, True)] @ [(2000, True)]))) = 0"
    by (intro edges_none) (elim conjE)
  from c have e2: "edges (fst (poll_run_sw \<lparr>pin = 10, stable = True, lastRead = True, lastChangeMs = 0\<rparr> 30
         ([(1000, True)] @ [(1005, False), (1010, True), (1012, False), (1020, True)] @ [(2000, True)]))) = 0"
    by (intro edges_none) (elim conjE)
  from c h2 e e2 show ?thesis
    by (elim conjE) (intro conjI; assumption)
qed

theorem press_release_one_edge_witness:
  "edges (fst (poll_run \<lparr>pin = 10, stable = True, lastRead = True, lastChangeMs = 0\<rparr> 30
        [(100, False), (120, False), (131, False), (150, False)])) = 1
   \<and> edges (fst (poll_run \<lparr>pin = 10, stable = True, lastRead = True, lastChangeMs = 0\<rparr> 30
        ([(100, False), (120, False), (131, False), (150, False)] @ [(200, True), (231, True)]))) = 1
   \<and> stable (snd (poll_run \<lparr>pin = 10, stable = True, lastRead = True, lastChangeMs = 0\<rparr> 30
        ([(100, False), (120, False), (131, False), (150, False)] @ [(200, True), (231, True)])))"
proof -
  have i1: "stable \<lparr>pin = 10, stable = True, lastRead = True, lastChangeMs = 0\<rparr>"
    and i2: "lastRead \<lparr>pin = 10, stable = True, lastRead = True, lastChangeMs = 0\<rparr>"
    by simp_all
  have p1: "[(100 :: u32, False), (120, False), (131, False), (150, False)] \<noteq> []"
    and p2: "\<forall>p \<in> set [(100 :: u32, False), (120, False), (131, False), (150, False)]. \<not> snd p"
    and p3: "\<exists>p \<in> set [(100 :: u32, False), (120, False), (131, False), (150, False)].
        fst p - fst (hd [(100 :: u32, False), (120, False), (131, False), (150, False)]) > ucast (30 :: u16)"
    by simp_all
  have r1: "[(200 :: u32, True), (231, True)] \<noteq> []"
    and r2: "\<forall>p \<in> set [(200 :: u32, True), (231, True)]. snd p"
    and r3: "\<exists>p \<in> set [(200 :: u32, True), (231, True)].
        fst p - fst (hd [(200 :: u32, True), (231, True)]) > ucast (30 :: u16)"
    by simp_all
  from press_release_one_edge [OF i1 i2 p1 p2 p3 r1 r2 r3] show ?thesis
    by (elim conjE) (intro conjI; assumption)
qed

section \<open>Single-precision rounding and the swing arithmetic\<close>

lemma rne_cases: "rne x = \<lfloor>x\<rfloor> \<or> rne x = \<lfloor>x\<rfloor> + 1"
  by (simp add: rne_def Let_def)

lemma rne_err: "\<bar>real_of_int (rne x) - x\<bar> \<le> 1 / 2"
proof -
  define f where "f = real_of_int \<lfloor>x\<rfloor>"
  have a: "f \<le> x" "x < f + 1" unfolding f_def by linarith+
  have "real_of_int (rne x) = f \<and> x - f \<le> 1 / 2 \<or>
        real_of_int (rne x) = f + 1 \<and> 1 / 2 \<le> x - f"
    unfolding f_def by (simp add: rne_def Let_def)
  with a show ?thesis by (auto simp: abs_if)
qed

lemma rne_ge: "real_of_int k \<le> x \<Longrightarrow> k \<le> rne x"
proof -
  assume "real_of_int k \<le> x"
  then have "k \<le> \<lfloor>x\<rfloor>" by (simp add: le_floor_iff)
  with rne_cases [of x] show ?thesis by auto
qed

lemma rne_le: "x \<le> real_of_int k \<Longrightarrow> rne x \<le> k"
proof -
  assume h: "x \<le> real_of_int k"
  show ?thesis
  proof (cases "x = real_of_int k")
    case True
    then show ?thesis by (simp add: rne_def)
  next
    case False
    with h have "x < real_of_int k" by simp
    then have "\<lfloor>x\<rfloor> < k" by (simp add: floor_less_iff)
    with rne_cases [of x] show ?thesis by auto
  qed
qed

lemma expo_correct:
  "2 powi (- int n) \<le> x \<Longrightarrow> x < 2 powi (int n + 1) \<Longrightarrow>
   2 powi (expo n x) \<le> x \<and> x < 2 powi (expo n x + 1)"
proof (induction n arbitrary: x)
  case 0
  then show ?case by simp
next
  case (Suc n)
  have "(2::real) powi (- int n - 1) = 2 powi (- int n) / 2 powi 1"
    by (rule power_int_diff) simp
  moreover have "- int (Suc n) = - int n - 1" by simp
  ultimately have s1: "(2::real) powi (- int (Suc n)) = 2 powi (- int n) / 2"
    by (simp only: power_int_1_right)
  have s2: "(2::real) powi (int (Suc n) + 1) = 2 powi (int n + 1) * 2"
    by (simp add: power_int_add)
  have p0: "(2::real) powi (- int n) \<le> 1"
    by (simp add: power_int_minus inverse_le_1_iff)
  have p1: "(2::real) \<le> 2 powi (int n + 1)"
    using power_int_increasing [of 1 "int n + 1" "2::real"] by simp
  show ?case
  proof (cases "2 \<le> x")
    case True
    have a: "2 powi (- int n) \<le> x / 2" using True p0 by linarith
    have b: "x / 2 < 2 powi (int n + 1)" using Suc.prems(2) unfolding s2 by linarith
    from Suc.IH [OF a b] True show ?thesis
      by (simp add: power_int_add)
  next
    case False
    show ?thesis
    proof (cases "x < 1")
      case True
      have a: "2 powi (- int n) \<le> x * 2" using Suc.prems(1) unfolding s1 by linarith
      have b: "x * 2 < 2 powi (int n + 1)" using True p1 by linarith
      from Suc.IH [OF a b] True False show ?thesis
        by (simp add: power_int_diff power_int_add)
    next
      case F2: False
      with False show ?thesis by simp
    qed
  qed
qed

lemma expo_unique:
  assumes "2 powi e \<le> x" "x < 2 powi (e + 1)" "- 300 \<le> e" "e \<le> 300"
  shows "expo 300 x = e"
proof -
  have lo: "(2::real) powi (- int 300) \<le> 2 powi e"
    using assms(3) by (intro power_int_increasing) simp_all
  have hi: "(2::real) powi (e + 1) \<le> 2 powi (int 300 + 1)"
    using assms(4) by (intro power_int_increasing) simp_all
  from lo hi assms have a: "2 powi (- int 300) \<le> x" and b: "x < 2 powi (int 300 + 1)"
    by linarith+
  from expo_correct [OF a b]
  have c: "2 powi (expo 300 x) \<le> x" and d: "x < 2 powi (expo 300 x + 1)" by simp_all
  from c assms(2) have "(2::real) powi (expo 300 x) < 2 powi (e + 1)" by linarith
  then have 1: "expo 300 x < e + 1"
    using power_int_increasing [of "e + 1" "expo 300 x" "2::real"] by (cases "expo 300 x < e + 1") auto
  from d assms(1) have "(2::real) powi e < 2 powi (expo 300 x + 1)" by linarith
  then have 2: "e < expo 300 x + 1"
    using power_int_increasing [of "expo 300 x + 1" e "2::real"] by (cases "e < expo 300 x + 1") auto
  from 1 2 show ?thesis by linarith
qed


lemma rne_of_int: "rne (real_of_int k) = k"
  by (simp add: rne_def)

lemma fl_eval:
  assumes "2 powi e \<le> \<bar>x\<bar>" "\<bar>x\<bar> < 2 powi (e + 1)" "- 126 \<le> e" "e \<le> 300"
  shows "fl x = real_of_int (rne (x / 2 powi (e - 23))) * 2 powi (e - 23)"
proof -
  have "(2::real) powi (- 126) \<le> 2 powi e"
    using assms(3) by (intro power_int_increasing) simp_all
  with assms(1) have n: "\<not> \<bar>x\<bar> < 2 powi (- 126)" by linarith
  have "expo 300 \<bar>x\<bar> = e"
    using assms by (intro expo_unique) simp_all
  with n show ?thesis by (simp add: fl_def Let_def)
qed

lemma fl_0: "fl 0 = 0"
  by (simp add: fl_def Let_def rne_def)

lemma fl_err:
  assumes "\<bar>x\<bar> \<le> 18446744073709551616"
  shows "\<bar>fl x - x\<bar> \<le> \<bar>x\<bar> / 16777216 + 1 / 16777216"
proof -
  have scale: "\<bar>real_of_int (rne (x / u)) * u - x\<bar> \<le> u / 2" if "0 < u" for u :: real
  proof -
    have "real_of_int (rne (x / u)) * u - x = (real_of_int (rne (x / u)) - x / u) * u"
      using that by (simp add: algebra_simps)
    then have "\<bar>real_of_int (rne (x / u)) * u - x\<bar> = \<bar>real_of_int (rne (x / u)) - x / u\<bar> * u"
      using that by (simp add: abs_mult)
    also have "\<dots> \<le> (1 / 2) * u"
      using that by (intro mult_right_mono rne_err) simp
    finally show ?thesis by simp
  qed
  show ?thesis
  proof (cases "\<bar>x\<bar> < 2 powi (- 126)")
    case True
    define u :: real where "u = 2 powi (- 149)"
    have up: "0 < u" by (simp add: u_def)
    have f: "fl x = real_of_int (rne (x / u)) * u"
      using True by (simp add: fl_def Let_def u_def)
    have "u / 2 \<le> 1 / 16777216"
      by (simp add: u_def power_int_minus)
    moreover have "0 \<le> \<bar>x\<bar> / 16777216" by simp
    moreover note scale [OF up]
    ultimately show ?thesis
      unfolding f by linarith
  next
    case False
    define e where "e = expo 300 \<bar>x\<bar>"
    have "(2::real) powi (- int 300) \<le> 2 powi (- 126)"
      by (intro power_int_increasing) simp_all
    with False have a: "2 powi (- int 300) \<le> \<bar>x\<bar>" by linarith
    have "(18446744073709551616::real) = 2 powi 64" by simp
    also have "\<dots> < 2 powi (int 300 + 1)"
      by (intro power_int_strict_increasing) simp_all
    finally have b: "\<bar>x\<bar> < 2 powi (int 300 + 1)" using assms by linarith
    from expo_correct [OF a b] have lo: "2 powi e \<le> \<bar>x\<bar>" by (simp add: e_def)
    have u: "(2::real) powi (e - 23) = 2 powi e / 8388608"
      by (simp add: power_int_diff)
    have f: "fl x = real_of_int (rne (x / 2 powi (e - 23))) * 2 powi (e - 23)"
      using False by (simp add: fl_def Let_def e_def)
    have "\<bar>fl x - x\<bar> \<le> 2 powi (e - 23) / 2"
      unfolding f by (rule scale) simp
    also have "\<dots> = 2 powi e / 16777216" by (simp add: u)
    also have "\<dots> \<le> \<bar>x\<bar> / 16777216" using lo by simp
    also have "\<dots> \<le> \<bar>x\<bar> / 16777216 + 1 / 16777216" by simp
    finally show ?thesis .
  qed
qed

lemma fl_abs_le:
  assumes "\<bar>x\<bar> \<le> 18446744073709551616"
  shows "\<bar>fl x\<bar> \<le> \<bar>x\<bar> + \<bar>x\<bar> / 16777216 + 1 / 16777216"
  using fl_err [OF assms] by linarith


lemma rne_neg: "rne (- x) = - rne x"
proof (cases "x = real_of_int \<lfloor>x\<rfloor>")
  case True
  then obtain k where k: "x = real_of_int k" ..
  have "rne (real_of_int (- k)) = - k" by (rule rne_of_int)
  then show ?thesis by (simp add: k rne_of_int)
next
  case False
  define f where "f = \<lfloor>x\<rfloor>"
  define d where "d = x - real_of_int f"
  have fl: "real_of_int f \<le> x" "x < real_of_int f + 1" unfolding f_def by linarith+
  from False have "x \<noteq> real_of_int f" by (simp add: f_def)
  with fl have d: "0 < d" "d < 1" unfolding d_def by linarith+
  have "real_of_int (- f - 1) \<le> - x" "- x < real_of_int (- f - 1) + 1"
    using d unfolding d_def by simp_all
  then have nf: "\<lfloor>- x\<rfloor> = - f - 1"
    by (rule floor_unique)
  have nd: "- x - real_of_int (- f - 1) = 1 - d"
    by (simp add: d_def)
  have p1: "- f - 1 + 1 = - f" by simp
  have a: "rne x = (if d < 1 / 2 then f else if 1 / 2 < d then f + 1 else if even f then f else f + 1)"
    by (simp only: rne_def Let_def f_def d_def)
  have b: "rne (- x) = (if 1 - d < 1 / 2 then - f - 1 else if 1 / 2 < 1 - d then - f
                        else if even (- f - 1) then - f - 1 else - f)"
    by (simp only: rne_def Let_def nf nd p1)
  have par: "even (- f - 1) = odd f" by simp
  show ?thesis
    unfolding a b par by (cases "d < 1 / 2"; cases "1 / 2 < d"; cases "even f"; simp)
qed

lemma fl_neg: "fl (- x) = - fl x"
  by (simp add: fl_def Let_def rne_neg)

lemma fl_pos_eval:
  assumes "2 powi (- 126) \<le> x" "x \<le> 18446744073709551616"
  obtains e where "2 powi e \<le> x" "x < 2 powi (e + 1)" "- 126 \<le> e"
    "fl x = real_of_int (rne (x / 2 powi (e - 23))) * 2 powi (e - 23)"
proof -
  define e where "e = expo 300 x"
  have "0 < (2::real) powi (- 126)" by simp
  with assms(1) have x0: "0 < x" by linarith
  have "(2::real) powi (- int 300) \<le> 2 powi (- 126)"
    by (intro power_int_increasing) simp_all
  with assms(1) have a: "2 powi (- int 300) \<le> x" by linarith
  have "(18446744073709551616::real) = 2 powi 64" by simp
  also have "\<dots> < 2 powi (int 300 + 1)"
    by (intro power_int_strict_increasing) simp_all
  finally have b: "x < 2 powi (int 300 + 1)" using assms(2) by linarith
  from expo_correct [OF a b] have lo: "2 powi e \<le> x" and hi: "x < 2 powi (e + 1)"
    by (simp_all add: e_def)
  from hi assms(1) have "(2::real) powi (- 126) < 2 powi (e + 1)" by linarith
  then have e1: "- 126 < e + 1"
    using power_int_increasing [of "e + 1" "- 126" "2::real"] by (cases "- 126 < e + 1") auto
  have f: "fl x = real_of_int (rne (x / 2 powi (e - 23))) * 2 powi (e - 23)"
    using assms(1) x0 by (simp add: fl_def Let_def e_def not_less [symmetric])
  from lo hi e1 f show thesis by (intro that [of e]) simp_all
qed

lemma fl_nonpos: 
  assumes "x \<le> 0" 
  shows "fl x \<le> 0"
proof -
  have "rne (x / u) \<le> 0" if "0 < u" for u :: real
    using assms that by (intro rne_le) (simp add: divide_nonpos_pos)
  then have "real_of_int (rne (x / u)) * u \<le> 0" if "0 < u" for u :: real
    using that by (simp add: mult_le_0_iff)
  then show ?thesis by (simp add: fl_def Let_def)
qed

lemma scale_23: "(2::real) powi e / 2 powi (e - 23) = 8388608"
  by (simp add: power_int_diff)

lemma scale_24: "(2::real) powi (e + 1) / 2 powi (e - 23) = 16777216"
  by (simp add: power_int_diff power_int_add)

lemma fl_ge_pow:
  assumes "- 126 \<le> e" "2 powi e \<le> x" "x \<le> 18446744073709551616"
  shows "2 powi e \<le> fl x"
proof -
  have "(2::real) powi (- 126) \<le> 2 powi e"
    using assms(1) by (intro power_int_increasing) simp_all
  with assms(2) have "2 powi (- 126) \<le> x" by linarith
  from fl_pos_eval [OF this assms(3)] obtain e'
    where lo: "2 powi e' \<le> x" and hi: "x < 2 powi (e' + 1)"
      and f: "fl x = real_of_int (rne (x / 2 powi (e' - 23))) * 2 powi (e' - 23)" by blast
  from assms(2) hi have "(2::real) powi e < 2 powi (e' + 1)" by linarith
  then have "e < e' + 1"
    using power_int_increasing [of "e' + 1" e "2::real"] by (cases "e < e' + 1") auto
  then have ee: "(2::real) powi e \<le> 2 powi e'"
    by (intro power_int_increasing) simp_all
  have u: "0 < (2::real) powi (e' - 23)" by simp
  have "real_of_int 8388608 \<le> x / 2 powi (e' - 23)"
    using lo u scale_23 [of e'] by (simp add: pos_le_divide_eq pos_divide_le_eq field_simps)
  then have "8388608 \<le> rne (x / 2 powi (e' - 23))" by (rule rne_ge)
  then have "8388608 * 2 powi (e' - 23) \<le> fl x"
    unfolding f using u by (intro mult_right_mono) simp_all
  moreover have "8388608 * 2 powi (e' - 23) = (2::real) powi e'"
    using scale_23 [of e'] by (simp add: field_simps)
  ultimately show ?thesis using ee by linarith
qed


lemma fl_le_pow:
  assumes "- 126 \<le> e" "e \<le> 64" "x \<le> 2 powi e"
  shows "fl x \<le> 2 powi e"
proof -
  have pe: "(2::real) powi (- 126) \<le> 2 powi e"
    using assms(1) by (intro power_int_increasing) simp_all
  have "(2::real) powi e \<le> 2 powi 64"
    using assms(2) by (intro power_int_increasing) simp_all
  with assms(3) have xb: "x \<le> 18446744073709551616" by simp
  consider "x \<le> 0" | "0 < x" "x < 2 powi (- 126)" | "2 powi (- 126) \<le> x" by linarith
  then show ?thesis
  proof cases
    case 1
    have "0 < (2::real) powi e" by simp
    with fl_nonpos [OF 1] show ?thesis by linarith
  next
    case 2
    define u :: real where "u = 2 powi (- 149)"
    have up: "0 < u" by (simp add: u_def)
    have f: "fl x = real_of_int (rne (x / u)) * u"
      using 2 by (simp add: fl_def Let_def u_def)
    have s: "(2::real) powi (- 126) = 8388608 * u"
      by (simp add: u_def power_int_minus)
    have "x / u \<le> real_of_int 8388608"
      using 2(2) up unfolding s by (simp add: pos_divide_le_eq)
    then have "rne (x / u) \<le> 8388608" by (rule rne_le)
    then have "fl x \<le> 8388608 * u"
      unfolding f using up by (intro mult_right_mono) simp_all
    with pe s show ?thesis by linarith
  next
    case 3
    from fl_pos_eval [OF 3 xb] obtain e'
      where lo: "2 powi e' \<le> x" and hi: "x < 2 powi (e' + 1)"
        and f: "fl x = real_of_int (rne (x / 2 powi (e' - 23))) * 2 powi (e' - 23)" by blast
    define u :: real where "u = 2 powi (e' - 23)"
    have up: "0 < u" by (simp add: u_def)
    have s23: "(2::real) powi e' = 8388608 * u"
      using scale_23 [of e'] up by (simp add: u_def field_simps)
    have s24: "(2::real) powi (e' + 1) = 16777216 * u"
      using scale_24 [of e'] up by (simp add: u_def field_simps)
    show ?thesis
    proof (cases "e' < e")
      case True
      then have le: "(2::real) powi (e' + 1) \<le> 2 powi e"
        by (intro power_int_increasing) simp_all
      have "x / u \<le> real_of_int 16777216"
        using hi up unfolding s24 by (simp add: pos_divide_le_eq)
      then have "rne (x / u) \<le> 16777216" by (rule rne_le)
      then have "fl x \<le> 16777216 * u"
        unfolding f u_def [symmetric] using up by (intro mult_right_mono) simp_all
      with le s24 show ?thesis by linarith
    next
      case False
      then have "(2::real) powi e \<le> 2 powi e'"
        by (intro power_int_increasing) simp_all
      with lo assms(3) have xe: "x \<le> 2 powi e'" and ee: "(2::real) powi e' \<le> 2 powi e" by linarith+
      have "x / u \<le> real_of_int 8388608"
        using xe up unfolding s23 by (simp add: pos_divide_le_eq)
      then have "rne (x / u) \<le> 8388608" by (rule rne_le)
      then have "fl x \<le> 8388608 * u"
        unfolding f u_def [symmetric] using up by (intro mult_right_mono) simp_all
      with ee s23 show ?thesis by linarith
    qed
  qed
qed

lemma fl_le_repr:
  assumes e: "- 126 \<le> e" "e \<le> 63"
    and c: "c = real_of_int m * 2 powi (e - 23)" "2 powi e \<le> c" "c < 2 powi (e + 1)"
    and x: "x \<le> c"
  shows "fl x \<le> c"
proof (cases "x < 2 powi e")
  case True
  then have "x \<le> 2 powi e" by simp
  from fl_le_pow [OF e(1) _ this] e(2) c(2) show ?thesis by simp
next
  case False
  then have lo: "2 powi e \<le> \<bar>x\<bar>" by simp
  have p: "0 < (2::real) powi e" by simp
  from False p have "0 \<le> x" by linarith
  then have xp: "\<bar>x\<bar> = x" by simp
  from x c(3) have hi: "\<bar>x\<bar> < 2 powi (e + 1)" unfolding xp by simp
  define u :: real where "u = 2 powi (e - 23)"
  have up: "0 < u" by (simp add: u_def)
  have f: "fl x = real_of_int (rne (x / u)) * u"
    unfolding u_def using lo hi e by (intro fl_eval) simp_all
  have "x / u \<le> real_of_int m"
    using x up unfolding c(1) u_def [symmetric] by (simp add: pos_divide_le_eq)
  then have "rne (x / u) \<le> m" by (rule rne_le)
  then have "fl x \<le> real_of_int m * u"
    unfolding f using up by (intro mult_right_mono) simp_all
  then show ?thesis unfolding c(1) u_def .
qed

lemma fl_ge_repr:
  assumes e: "- 126 \<le> e" "e \<le> 63"
    and c: "c = real_of_int m * 2 powi (e - 23)" "2 powi e \<le> c" "c < 2 powi (e + 1)"
    and x: "c \<le> x" "x \<le> 18446744073709551616"
  shows "c \<le> fl x"
proof (cases "x < 2 powi (e + 1)")
  case False
  then have "2 powi (e + 1) \<le> x" by simp
  from fl_ge_pow [OF _ this x(2)] e(1) c(3) show ?thesis by simp
next
  case True
  have p: "0 < (2::real) powi e" by simp
  from c(2) x(1) p have "0 \<le> x" by linarith
  then have xp: "\<bar>x\<bar> = x" by simp
  from c(2) x(1) have lo: "2 powi e \<le> \<bar>x\<bar>" unfolding xp by simp
  from True have hi: "\<bar>x\<bar> < 2 powi (e + 1)" unfolding xp .
  define u :: real where "u = 2 powi (e - 23)"
  have up: "0 < u" by (simp add: u_def)
  have f: "fl x = real_of_int (rne (x / u)) * u"
    unfolding u_def using lo hi e by (intro fl_eval) simp_all
  have "real_of_int m \<le> x / u"
    using x(1) up unfolding c(1) u_def [symmetric] by (simp add: pos_le_divide_eq)
  then have "m \<le> rne (x / u)" by (rule rne_ge)
  then have "real_of_int m * u \<le> fl x"
    unfolding f using up by (intro mult_right_mono) simp_all
  then show ?thesis unfolding c(1) u_def .
qed

lemma fl_abs_le_repr:
  assumes e: "- 126 \<le> e" "e \<le> 63"
    and c: "c = real_of_int m * 2 powi (e - 23)" "2 powi e \<le> c" "c < 2 powi (e + 1)"
    and x: "\<bar>x\<bar> \<le> c"
  shows "\<bar>fl x\<bar> \<le> c"
proof -
  from x have "x \<le> c" "- x \<le> c" by simp_all
  from fl_le_repr [OF e c this(1)] fl_le_repr [OF e c this(2)] show ?thesis
    by (simp add: fl_neg abs_le_iff)
qed

lemma fl_nonneg: "0 \<le> x \<Longrightarrow> 0 \<le> fl x"
  using fl_nonpos [of "- x"] by (simp add: fl_neg)

lemma MAX_SWING_RATIO_val: "MAX_SWING_RATIO = 10066330 / 16777216"
  unfolding MAX_SWING_RATIO_def
  by (subst fl_eval [where e = "- 1"]) (simp_all add: power_int_minus rne_def)

lemma fl_1023: "fl 1023 = 1023"
  by (subst fl_eval [where e = 9]) (simp_all add: power_int_minus rne_def)

lemma fl_1: "fl 1 = 1"
  by (subst fl_eval [where e = 0]) (simp_all add: power_int_minus rne_def)

lemma fl_240: "fl 240 = 240"
  by (subst fl_eval [where e = 7]) (simp_all add: power_int_minus rne_def)

lemma fl_250: "fl 250 = 250"
  by (subst fl_eval [where e = 7]) (simp_all add: power_int_minus rne_def)

lemma bpm_of_1023: "bpm_of 1023 = 240"
  by (simp add: bpm_of_def fl_1023 fl_1 fl_240)

lemma bpm_of_0: "bpm_of 0 = 0"
  by (simp add: bpm_of_def fl_0)

lemma swingRatio_of_512: "swingRatio_of 512 = 0"
  by (simp add: swingRatio_of_def fl_0)


lemma trunc_int_abs: "\<bar>real_of_int (trunc_int x)\<bar> \<le> \<bar>x\<bar>"
proof (cases "x < 0")
  case True
  have "x \<le> real_of_int \<lceil>x\<rceil>" by (rule le_of_int_ceiling)
  moreover have "\<lceil>x\<rceil> \<le> 0" using True by (intro ceiling_le) simp
  ultimately show ?thesis using True by (simp add: trunc_int_def)
next
  case False
  have "real_of_int \<lfloor>x\<rfloor> \<le> x" by (rule of_int_floor_le)
  moreover have "0 \<le> \<lfloor>x\<rfloor>" using False by simp
  ultimately show ?thesis using False by (simp add: trunc_int_def)
qed

lemma trunc_int_err: "\<bar>real_of_int (trunc_int x) - x\<bar> < 1"
proof (cases "x < 0")
  case True
  then have t: "trunc_int x = \<lceil>x\<rceil>" by (simp add: trunc_int_def)
  have "x \<le> real_of_int \<lceil>x\<rceil>" "real_of_int \<lceil>x\<rceil> < x + 1" by linarith+
  then show ?thesis unfolding t by linarith
next
  case False
  then have t: "trunc_int x = \<lfloor>x\<rfloor>" by (simp add: trunc_int_def)
  have "real_of_int \<lfloor>x\<rfloor> \<le> x" "x < real_of_int \<lfloor>x\<rfloor> + 1" by linarith+
  then show ?thesis unfolding t by linarith
qed

lemma bpm_of_range:
  assumes "0 \<le> raw" "raw \<le> 1023"
  shows "0 \<le> bpm_of raw" and "bpm_of raw \<le> 240"
proof -
  have a0: "0 \<le> fl (real_of_int raw)" using assms(1) by (intro fl_nonneg) simp
  have a1: "fl (real_of_int raw) \<le> 1023"
    using assms(2) by (intro fl_le_repr [where e = 9 and m = 16760832]) (simp_all add: power_int_minus)
  have b0: "0 \<le> fl (fl (real_of_int raw) / 1023)" using a0 by (intro fl_nonneg) simp
  have b1: "fl (fl (real_of_int raw) / 1023) \<le> 1"
    using a1 by (intro fl_le_repr [where e = 0 and m = 8388608]) (simp_all add: power_int_minus)
  show "0 \<le> bpm_of raw"
    unfolding bpm_of_def using b0 by (intro fl_nonneg) simp
  show "bpm_of raw \<le> 240"
    unfolding bpm_of_def using b1
    by (intro fl_le_repr [where e = 7 and m = 15728640]) (simp_all add: power_int_minus)
qed

lemma interval_range:
  assumes "0 \<le> raw" "raw \<le> 1023" "\<not> bpm_of raw \<le> 1 / 2"
  shows "250 \<le> trunc_int (fl (60000 / bpm_of raw))"
    and "trunc_int (fl (60000 / bpm_of raw)) \<le> 120000"
proof -
  define q where "q = 60000 / bpm_of raw"
  have bp: "0 < bpm_of raw" "1 / 2 < bpm_of raw" using assms(3) by simp_all
  have lo: "250 \<le> q"
    unfolding q_def using bpm_of_range(2) [OF assms(1,2)] bp(1) by (simp add: pos_le_divide_eq)
  have hi: "q \<le> 120000"
    unfolding q_def using bp by (simp add: pos_divide_le_eq)
  have f1: "250 \<le> fl q"
    using lo hi by (intro fl_ge_repr [where e = 7 and m = 16384000]) (simp_all add: power_int_minus)
  have f2: "fl q \<le> 120000"
    using hi by (intro fl_le_repr [where e = 16 and m = 15360000]) (simp_all add: power_int_minus)
  have t: "trunc_int (fl q) = \<lfloor>fl q\<rfloor>" using f1 by (simp add: trunc_int_def)
  show "250 \<le> trunc_int (fl (60000 / bpm_of raw))"
    unfolding q_def [symmetric] t using f1 by (simp add: le_floor_iff)
  show "trunc_int (fl (60000 / bpm_of raw)) \<le> 120000"
    unfolding q_def [symmetric] t using f2 by (simp add: floor_le_iff)
qed

lemma swingRatio_of_bound:
  assumes "0 \<le> raw" "raw \<le> 1023"
  shows "\<bar>swingRatio_of raw\<bar> \<le> MAX_SWING_RATIO"
proof -
  have "\<bar>real_of_int (raw - 512)\<bar> \<le> 512" using assms by linarith
  then have a: "\<bar>fl (real_of_int (raw - 512))\<bar> \<le> 512"
    by (intro fl_abs_le_repr [where e = 9 and m = 8388608]) (simp_all add: power_int_minus)
  have b: "\<bar>fl (fl (real_of_int (raw - 512)) / 512)\<bar> \<le> 1"
    using a by (intro fl_abs_le_repr [where e = 0 and m = 8388608]) (simp_all add: power_int_minus)
  have mp: "0 \<le> MAX_SWING_RATIO" by (simp add: MAX_SWING_RATIO_val)
  have "\<bar>fl (fl (real_of_int (raw - 512)) / 512) * MAX_SWING_RATIO\<bar>
      = \<bar>fl (fl (real_of_int (raw - 512)) / 512)\<bar> * MAX_SWING_RATIO"
    using mp by (simp add: abs_mult)
  also have "\<dots> \<le> 1 * MAX_SWING_RATIO"
    using b mp by (intro mult_right_mono)
  finally have c: "\<bar>fl (fl (real_of_int (raw - 512)) / 512) * MAX_SWING_RATIO\<bar> \<le> MAX_SWING_RATIO"
    by simp
  show ?thesis
    unfolding swingRatio_of_def using c
    by (intro fl_abs_le_repr [where e = "- 1" and m = 10066330])
       (simp_all add: MAX_SWING_RATIO_val power_int_minus)
qed

lemma fl_prod_bound:
  assumes b: "0 < b" "b < 2147483648" and r: "\<bar>r\<bar> \<le> c" and c: "c \<le> 9 / 10"
  shows "\<bar>fl (fl (real_of_int b) * r)\<bar> \<le> (c + 1 / 1000) * real_of_int b"
    and "\<bar>fl (fl (real_of_int b) * r) - real_of_int b * r\<bar> \<le> real_of_int b / 4194304"
proof -
  define B where "B = real_of_int b"
  define z where "z = fl B * r"
  define P where "P = c * B"
  have B1: "1 \<le> B" "B < 2147483648" using b by (simp_all add: B_def)
  have c0: "0 \<le> c" using r by linarith
  have eB: "\<bar>fl B - B\<bar> \<le> B / 16777216 + 1 / 16777216"
    using fl_err [of B] B1 by simp
  then have aB: "\<bar>fl B\<bar> \<le> B + B / 16777216 + 1 / 16777216" using B1 by linarith
  have "\<bar>z\<bar> = \<bar>fl B\<bar> * \<bar>r\<bar>" by (simp add: z_def abs_mult)
  also have "\<dots> \<le> (B + B / 16777216 + 1 / 16777216) * c"
    using aB r c0 by (intro mult_mono) simp_all
  also have "\<dots> = P + P / 16777216 + c / 16777216"
    by (simp add: P_def algebra_simps)
  finally have az: "\<bar>z\<bar> \<le> P + P / 16777216 + c / 16777216" .
  have cB: "P \<le> (9 / 10) * B" "0 \<le> P"
    unfolding P_def using c c0 B1 by (simp_all add: mult_right_mono)
  have zb: "\<bar>z\<bar> \<le> 18446744073709551616"
    using az cB c B1 by linarith
  have ez: "\<bar>fl z - z\<bar> \<le> \<bar>z\<bar> / 16777216 + 1 / 16777216" by (rule fl_err [OF zb])
  have "\<bar>fl z\<bar> \<le> P + B / 1000"
    using ez az cB c c0 B1 by linarith
  then show "\<bar>fl (fl (real_of_int b) * r)\<bar> \<le> (c + 1 / 1000) * real_of_int b"
    unfolding B_def [symmetric] z_def [symmetric] by (simp add: P_def algebra_simps)
  have "z - B * r = (fl B - B) * r" by (simp add: z_def algebra_simps)
  then have "\<bar>z - B * r\<bar> = \<bar>fl B - B\<bar> * \<bar>r\<bar>" by (simp add: abs_mult)
  also have "\<dots> \<le> (B / 16777216 + 1 / 16777216) * (9 / 10)"
    using eB r c by (intro mult_mono) simp_all
  finally have d: "\<bar>z - B * r\<bar> \<le> (B / 16777216 + 1 / 16777216) * (9 / 10)" .
  then have d': "\<bar>z - B * r\<bar> \<le> B * (9 / 167772160) + 9 / 167772160" by (simp add: algebra_simps)
  have "\<bar>fl z - B * r\<bar> \<le> B / 4194304"
    using ez az cB c c0 B1 d' by linarith
  then show "\<bar>fl (fl (real_of_int b) * r) - real_of_int b * r\<bar> \<le> real_of_int b / 4194304"
    unfolding B_def [symmetric] z_def [symmetric] .
qed

lemma trunc_small:
  assumes "0 < b" "b < 2147483648" "\<bar>r\<bar> \<le> 9 / 10"
  shows "\<bar>trunc_int (fl (fl (real_of_int b) * r))\<bar> < b"
proof -
  have "\<bar>fl (fl (real_of_int b) * r)\<bar> \<le> (9 / 10 + 1 / 1000) * real_of_int b"
    by (rule fl_prod_bound(1) [OF assms(1,2,3)]) simp
  then have "\<bar>fl (fl (real_of_int b) * r)\<bar> \<le> (901 / 1000) * real_of_int b" by simp
  moreover have "(901 / 1000) * real_of_int b < real_of_int b" using assms(1) by simp
  ultimately have "\<bar>real_of_int (trunc_int (fl (fl (real_of_int b) * r)))\<bar> < real_of_int b"
    using trunc_int_abs [of "fl (fl (real_of_int b) * r)"] by linarith
  then show ?thesis by linarith
qed

lemma trunc_bound:
  assumes "0 < b" "b < 2147483648" "\<bar>r\<bar> \<le> MAX_SWING_RATIO"
  shows "1000 * \<bar>trunc_int (fl (fl (real_of_int b) * r))\<bar> \<le> 602 * b"
proof -
  have m: "MAX_SWING_RATIO \<le> 601 / 1000" by (simp add: MAX_SWING_RATIO_val)
  with assms(3) have r: "\<bar>r\<bar> \<le> 601 / 1000" by linarith
  have "\<bar>fl (fl (real_of_int b) * r)\<bar> \<le> (601 / 1000 + 1 / 1000) * real_of_int b"
    by (rule fl_prod_bound(1) [OF assms(1,2) r]) simp
  then have "\<bar>fl (fl (real_of_int b) * r)\<bar> \<le> (602 / 1000) * real_of_int b" by simp
  then have "\<bar>real_of_int (trunc_int (fl (fl (real_of_int b) * r)))\<bar> \<le> (602 / 1000) * real_of_int b"
    using trunc_int_abs [of "fl (fl (real_of_int b) * r)"] by linarith
  then show ?thesis by linarith
qed

lemma trunc_accuracy:
  assumes "0 < b" "b < 2147483648" "\<bar>r\<bar> \<le> 9 / 10"
  shows "\<bar>real_of_int (trunc_int (fl (fl (real_of_int b) * r))) - real_of_int b * r\<bar>
           < 1 + real_of_int b / 4194304"
proof -
  have "\<bar>fl (fl (real_of_int b) * r) - real_of_int b * r\<bar> \<le> real_of_int b / 4194304"
    by (rule fl_prod_bound(2) [OF assms(1,2,3)]) simp
  with trunc_int_err [of "fl (fl (real_of_int b) * r)"] show ?thesis
    by linarith
qed

lemma sint_lt_31: "sint (w :: u32) < 2147483648"
  using sint_lt [of w] by simp

lemma MAX_SWING_RATIO_le: "MAX_SWING_RATIO \<le> 9 / 10"
  by (simp add: MAX_SWING_RATIO_val)

lemma swing_offset_small:
  assumes "0 < sint interval" and "\<bar>ratio\<bar> \<le> MAX_SWING_RATIO"
  shows "\<bar>swing_offset interval ratio\<bar> < sint interval"
proof -
  from assms(2) MAX_SWING_RATIO_le have "\<bar>ratio\<bar> \<le> 9 / 10" by linarith
  with assms(1) sint_lt_31 show ?thesis
    unfolding swing_offset_def by (rule trunc_small)
qed

lemma swing_offset_bound:
  assumes "0 < sint interval" and "\<bar>ratio\<bar> \<le> MAX_SWING_RATIO"
  shows "1000 * \<bar>swing_offset interval ratio\<bar> \<le> 602 * sint interval"
  unfolding swing_offset_def using assms(1) sint_lt_31 assms(2) by (rule trunc_bound)

lemma swing_offset_accuracy:
  assumes "0 < sint interval" and "\<bar>ratio\<bar> \<le> MAX_SWING_RATIO"
  shows "\<bar>real_of_int (swing_offset interval ratio) - real_of_int (sint interval) * ratio\<bar>
           < 1 + real_of_int (sint interval) / 4194304"
proof -
  from assms(2) MAX_SWING_RATIO_le have "\<bar>ratio\<bar> \<le> 9 / 10" by linarith
  with assms(1) sint_lt_31 show ?thesis
    unfolding swing_offset_def by (rule trunc_accuracy)
qed

lemma fl_4: "fl 4 = 4"
  by (subst fl_eval [where e = 2]) (simp_all add: power_int_minus rne_def)

lemma fl_4_1023: "fl (4 / 1023) = 1049601 / 268435456"
  by (subst fl_eval [where e = "- 8"]) (simp_all add: power_int_minus rne_def)

lemma bpm_of_4: "bpm_of 4 = 15744015 / 16777216"
  unfolding bpm_of_def of_int_numeral fl_4 fl_4_1023
  by (subst fl_eval [where e = "- 1"]) (simp_all add: power_int_minus rne_def)

lemma interval_4: "trunc_int (fl (60000 / bpm_of 4)) = 63937"
  unfolding bpm_of_4
  by (subst fl_eval [where e = 15]) (simp_all add: power_int_minus rne_def trunc_int_def)

lemma fl_447: "fl (- 447) = - 447"
  by (subst fl_eval [where e = 8]) (simp_all add: power_int_minus rne_def)

lemma fl_447_512: "fl (- (447 / 512)) = - (447 / 512)"
  unfolding fl_neg
  by (subst fl_eval [where e = "- 1"]) (simp_all add: power_int_minus rne_def)

lemma swingRatio_of_65: "swingRatio_of 65 = - 4394189 / 8388608"
  unfolding swingRatio_of_def MAX_SWING_RATIO_val
  by (simp add: fl_447 fl_447_512, subst fl_eval [where e = "- 1"])
     (simp_all add: power_int_minus rne_def)

lemma fl_63937: "fl 63937 = 63937"
  by (subst fl_eval [where e = 15]) (simp_all add: power_int_minus rne_def)

lemma offset_4_65: "trunc_int (fl (fl 63937 * swingRatio_of 65)) = - 33492"
  unfolding swingRatio_of_65 fl_63937
  by (subst fl_eval [where e = 15]) (simp_all add: power_int_minus rne_def trunc_int_def)

section \<open>Step index arithmetic\<close>

lemma and3_unat: "unat ((y::u8) AND 0x03) = unat y mod 4"
proof -
  have "y AND 0x03 = take_bit 2 y"
    by (simp add: take_bit_eq_mask mask_eq_exp_minus_1)
  then have "unat (y AND 0x03) = take_bit 2 (unat y)"
    by (simp only: unsigned_take_bit_eq)
  then show ?thesis by (simp add: take_bit_eq_mod)
qed

lemma step_next_unat: "unat (((x::u8) + 1) AND 0x03) = (unat x + 1) mod 4"
proof -
  have "unat (x + 1) = (unat x + 1) mod 256"
    by (simp add: unat_word_ariths)
  then have "unat (x + 1) mod 4 = (unat x + 1) mod 4"
    by (simp add: mod_mod_cancel)
  then show ?thesis by (simp only: and3_unat)
qed

section \<open>The voice loops\<close>

lemma notesOff_frame:
  "stepBtn (notesOff msg test vs s) = stepBtn s
 \<and> playBtn (notesOff msg test vs s) = playBtn s
 \<and> instBtn (notesOff msg test vs s) = instBtn s
 \<and> pattern (notesOff msg test vs s) = pattern s
 \<and> isPlaying (notesOff msg test vs s) = isPlaying s
 \<and> stepIndex (notesOff msg test vs s) = stepIndex s
 \<and> stepIntervalMs (notesOff msg test vs s) = stepIntervalMs s
 \<and> nextStepAtMs (notesOff msg test vs s) = nextStepAtMs s
 \<and> noteOffAtMs (notesOff msg test vs s) = noteOffAtMs s
 \<and> currentVoice (notesOff msg test vs s) = currentVoice s
 \<and> length (noteActive (notesOff msg test vs s)) = length (noteActive s)"
  by (induction vs arbitrary: s) simp_all

lemma notesOff_sent:
  assumes "distinct vs"
  shows "sent (notesOff msg test vs s)
       = sent s @ map msg (filter (\<lambda>v. noteActive s ! v \<and> test (noteOffAtMs s ! v)) vs)"
  using assms
proof (induction vs arbitrary: s)
  case Nil
  then show ?case by simp
next
  case (Cons v vs)
  let ?s' = "if noteActive s ! v \<and> test (noteOffAtMs s ! v)
             then s\<lparr>sent := sent s @ [msg v], noteActive := (noteActive s)[v := False]\<rparr> else s"
  from Cons.prems have d: "distinct vs" and nv: "v \<notin> set vs" by simp_all
  have same: "filter (\<lambda>u. noteActive ?s' ! u \<and> test (noteOffAtMs ?s' ! u)) vs
            = filter (\<lambda>u. noteActive s ! u \<and> test (noteOffAtMs s ! u)) vs"
  proof (intro filter_cong refl)
    fix u assume "u \<in> set vs"
    with nv have "v \<noteq> u" by auto
    then show "(noteActive ?s' ! u \<and> test (noteOffAtMs ?s' ! u))
             = (noteActive s ! u \<and> test (noteOffAtMs s ! u))"
      by simp
  qed
  have "sent (notesOff msg test (v # vs) s) = sent (notesOff msg test vs ?s')" by simp
  also have "\<dots> = sent ?s' @ map msg (filter (\<lambda>u. noteActive ?s' ! u \<and> test (noteOffAtMs ?s' ! u)) vs)"
    by (rule Cons.IH [OF d])
  finally show ?case
    unfolding same by simp
qed

lemma notesOff_active:
  assumes "v < length (noteActive s)"
  shows "noteActive (notesOff msg test vs s) ! v
       = (noteActive s ! v \<and> \<not> (v \<in> set vs \<and> test (noteOffAtMs s ! v)))"
  using assms
proof (induction vs arbitrary: s)
  case Nil
  then show ?case by simp
next
  case (Cons u vs)
  show ?case
  proof (cases "u = v")
    case True
    with Cons show ?thesis by auto
  next
    case False
    with Cons show ?thesis by auto
  qed
qed

lemma notesOn_frame:
  "stepBtn (notesOn msg dl vs s) = stepBtn s
 \<and> playBtn (notesOn msg dl vs s) = playBtn s
 \<and> instBtn (notesOn msg dl vs s) = instBtn s
 \<and> pattern (notesOn msg dl vs s) = pattern s
 \<and> isPlaying (notesOn msg dl vs s) = isPlaying s
 \<and> stepIndex (notesOn msg dl vs s) = stepIndex s
 \<and> stepIntervalMs (notesOn msg dl vs s) = stepIntervalMs s
 \<and> nextStepAtMs (notesOn msg dl vs s) = nextStepAtMs s
 \<and> currentVoice (notesOn msg dl vs s) = currentVoice s
 \<and> length (noteActive (notesOn msg dl vs s)) = length (noteActive s)
 \<and> length (noteOffAtMs (notesOn msg dl vs s)) = length (noteOffAtMs s)"
  by (induction vs arbitrary: s) simp_all

lemma notesOn_sent:
  "sent (notesOn msg dl vs s)
     = sent s @ map msg (filter (\<lambda>v. pattern s ! v ! unat (stepIndex s)) vs)"
  by (induction vs arbitrary: s) simp_all

lemma notesOn_active:
  assumes "v < length (noteActive s)"
  shows "noteActive (notesOn msg dl vs s) ! v
       = (noteActive s ! v \<or> (v \<in> set vs \<and> pattern s ! v ! unat (stepIndex s)))"
  using assms
proof (induction vs arbitrary: s)
  case Nil
  then show ?case by simp
next
  case (Cons u vs)
  show ?case
  proof (cases "u = v")
    case True
    with Cons show ?thesis by auto
  next
    case False
    with Cons show ?thesis by auto
  qed
qed

lemma notesOn_deadline:
  assumes "v < length (noteOffAtMs s)"
  shows "noteOffAtMs (notesOn msg dl vs s) ! v
       = (if v \<in> set vs \<and> pattern s ! v ! unat (stepIndex s) then dl else noteOffAtMs s ! v)"
  using assms
proof (induction vs arbitrary: s)
  case Nil
  then show ?case by simp
next
  case (Cons u vs)
  show ?case
  proof (cases "u = v")
    case True
    with Cons show ?thesis by auto
  next
    case False
    with Cons show ?thesis by auto
  qed
qed

lemma stepButtons_frame:
  "playBtn (stepButtons poll rd is s) = playBtn s
 \<and> instBtn (stepButtons poll rd is s) = instBtn s
 \<and> isPlaying (stepButtons poll rd is s) = isPlaying s
 \<and> stepIndex (stepButtons poll rd is s) = stepIndex s
 \<and> stepIntervalMs (stepButtons poll rd is s) = stepIntervalMs s
 \<and> nextStepAtMs (stepButtons poll rd is s) = nextStepAtMs s
 \<and> noteActive (stepButtons poll rd is s) = noteActive s
 \<and> noteOffAtMs (stepButtons poll rd is s) = noteOffAtMs s
 \<and> currentVoice (stepButtons poll rd is s) = currentVoice s
 \<and> sent (stepButtons poll rd is s) = sent s"
  by (induction "is" arbitrary: s) (simp_all add: Let_def split: prod.splits)

lemma handleInstrumentButton_frame:
  "playBtn (handleInstrumentButton i s) = playBtn s
 \<and> isPlaying (handleInstrumentButton i s) = isPlaying s
 \<and> stepIndex (handleInstrumentButton i s) = stepIndex s
 \<and> stepIntervalMs (handleInstrumentButton i s) = stepIntervalMs s
 \<and> nextStepAtMs (handleInstrumentButton i s) = nextStepAtMs s
 \<and> noteActive (handleInstrumentButton i s) = noteActive s
 \<and> noteOffAtMs (handleInstrumentButton i s) = noteOffAtMs s
 \<and> sent (handleInstrumentButton i s) = sent s"
  by (simp add: handleInstrumentButton_def Let_def split: prod.splits)

lemma selectVoice_sw_frame:
  "playBtn (selectVoice_sw i s) = playBtn s
 \<and> isPlaying (selectVoice_sw i s) = isPlaying s
 \<and> stepIndex (selectVoice_sw i s) = stepIndex s
 \<and> stepIntervalMs (selectVoice_sw i s) = stepIntervalMs s
 \<and> nextStepAtMs (selectVoice_sw i s) = nextStepAtMs s
 \<and> noteActive (selectVoice_sw i s) = noteActive s
 \<and> noteOffAtMs (selectVoice_sw i s) = noteOffAtMs s
 \<and> sent (selectVoice_sw i s) = sent s"
  by (simp add: selectVoice_sw_def Let_def split: prod.splits)

lemma handleStepButtons_fs_frame:
  "fs_playBtn (handleStepButtons_fs rd is s) = fs_playBtn s
 \<and> fs_isPlaying (handleStepButtons_fs rd is s) = fs_isPlaying s
 \<and> fs_stepIndex (handleStepButtons_fs rd is s) = fs_stepIndex s
 \<and> fs_stepIntervalMs (handleStepButtons_fs rd is s) = fs_stepIntervalMs s
 \<and> fs_nextStepAtMs (handleStepButtons_fs rd is s) = fs_nextStepAtMs s
 \<and> fs_noteActive (handleStepButtons_fs rd is s) = fs_noteActive s
 \<and> fs_noteOffAtMs (handleStepButtons_fs rd is s) = fs_noteOffAtMs s
 \<and> fs_sent (handleStepButtons_fs rd is s) = fs_sent s"
  by (induction "is" arbitrary: s) (simp_all add: Let_def split: prod.splits)

section \<open>The step index\<close>

lemma mod4_shift: "((a + 1) mod 4 + k + 1) mod (4::nat) = (a + Suc k + 1) mod 4"
proof -
  have "((a + 1) mod 4 + (k + 1)) mod 4 = ((a + 1) + (k + 1)) mod 4"
    by (rule mod_add_left_eq)
  then show ?thesis by (simp add: add.assoc)
qed

lemma visited_cycle:
  assumes step: "\<And>i s. unat (idx (f i s)) = (if ev i s then (unat (idx s) + 1) mod 4 else unat (idx s))"
    and inr: "unat (idx s) < 4"
  shows "k < length (visited f ev idx s is) \<Longrightarrow>
         unat (visited f ev idx s is ! k) = (unat (idx s) + k + 1) mod 4"
  using inr
proof (induction "is" arbitrary: s k)
  case Nil
  then show ?case by simp
next
  case (Cons i "is")
  have r: "unat (idx (f i s)) < 4"
    using step [of i s] Cons.prems(2) by (simp split: if_splits)
  show ?case
  proof (cases "ev i s")
    case True
    show ?thesis
    proof (cases k)
      case 0
      with True step [of i s] show ?thesis by simp
    next
      case (Suc k')
      with True Cons.prems have "k' < length (visited f ev idx (f i s) is)" by simp
      from Cons.IH [OF this r] have "unat (visited f ev idx (f i s) is ! k')
          = (unat (idx (f i s)) + k' + 1) mod 4" .
      also have "\<dots> = ((unat (idx s) + 1) mod 4 + k' + 1) mod 4"
        using True step [of i s] by simp
      also have "\<dots> = (unat (idx s) + k + 1) mod 4"
        unfolding Suc by (rule mod4_shift)
      finally show ?thesis using True Suc by simp
    qed
  next
    case False
    with Cons.prems have "k < length (visited f ev idx (f i s) is)" by simp
    from Cons.IH [OF this r] False step [of i s] show ?thesis by simp
  qed
qed

lemma handlePlayButton_fs_stepIndex:
  "fs_stepIndex (handlePlayButton_fs i s) = fs_stepIndex s"
  by (simp add: handlePlayButton_fs_def Let_def split: prod.splits)

lemma runSequencer_fs_stepIndex:
  "fs_stepIndex (runSequencer_fs now s)
     = (if fs_isPlaying s \<and> due now (fs_nextStepAtMs s) then (fs_stepIndex s + 1) AND 0x03
        else fs_stepIndex s)"
  by (simp add: runSequencer_fs_def Let_def)

lemma loop_fs_stepIndex:
  "unat (fs_stepIndex (loop_fs i s))
     = (if stepDue_fs i s then (unat (fs_stepIndex s) + 1) mod 4 else unat (fs_stepIndex s))"
proof -
  have "fs_stepIndex (loop_fs i s)
      = (if stepDue_fs i s then (fs_stepIndex s + 1) AND 0x03 else fs_stepIndex s)"
    unfolding loop_fs_def stepDue_fs_def Let_def
    by (simp only: runSequencer_fs_stepIndex handlePlayButton_fs_stepIndex handleStepButtons_fs_frame)
  then show ?thesis
    by (cases "stepDue_fs i s") (simp_all only: if_True if_False step_next_unat)
qed

lemma handlePlayButton_stepIndex:
  "stepIndex (handlePlayButton tr i s) = stepIndex s"
  by (simp add: handlePlayButton_def Let_def notesOff_frame split: prod.splits)

lemma runSequencer_stepIndex:
  "stepIndex (runSequencer tr now s)
     = (if isPlaying s \<and> due now (nextStepAtMs s) then (stepIndex s + 1) AND 0x03
        else stepIndex s)"
  by (simp add: runSequencer_def Let_def notesOff_frame notesOn_frame)

lemma loop_mv_stepIndex:
  "unat (stepIndex (loop_mv tr i s))
     = (if stepDue_mv tr i s then (unat (stepIndex s) + 1) mod 4 else unat (stepIndex s))"
proof -
  have "stepIndex (loop_mv tr i s)
      = (if stepDue_mv tr i s then (stepIndex s + 1) AND 0x03 else stepIndex s)"
    unfolding loop_mv_def stepDue_mv_def Let_def handleStepButtons_def
    by (simp only: runSequencer_stepIndex handlePlayButton_stepIndex stepButtons_frame
        handleInstrumentButton_frame)
  then show ?thesis
    by (cases "stepDue_mv tr i s") (simp_all only: if_True if_False step_next_unat)
qed

lemma sequencer_sw_stepIndex:
  "unat (stepIndex (sequencer_sw i s))
     = (if stepDue_sw i s then (unat (stepIndex s) + 1) mod 4 else unat (stepIndex s))"
  by (simp add: sequencer_sw_def stepDue_sw_def Let_def notesOff_frame notesOn_frame step_next_unat)

lemma playToggle_sw_stepIndex:
  "stepIndex (playToggle_sw i s) = stepIndex s \<or> stepIndex (playToggle_sw i s) = 0"
  by (simp add: playToggle_sw_def Let_def notesOff_frame split: prod.splits)

lemma loop_sw_stepIndex_range:
  assumes "unat (stepIndex s) < 4"
  shows "unat (stepIndex (loop_sw i s)) < 4"
proof -
  let ?s1 = "playToggle_sw i (stepButtons pollFalling (in_steps i) [0..<4] (selectVoice_sw i s))"
  have "unat (stepIndex ?s1) < 4"
    using playToggle_sw_stepIndex [of i "stepButtons pollFalling (in_steps i) [0..<4] (selectVoice_sw i s)"]
      assms
    by (auto simp only: stepButtons_frame selectVoice_sw_frame unsigned_0)
  then show ?thesis
    unfolding loop_sw_def by (simp only: sequencer_sw_stepIndex split: if_split) simp
qed

lemma poll_idle: "pollEdgeFalling (idleBtn p) w t True = (False, idleBtn p)"
  by (simp add: pollEdgeFalling_def idleBtn_def Let_def)

lemma pollFalling_idle: "pollFalling (idleBtn p) w t True = (False, idleBtn p)"
  by (simp add: pollFalling_def idleBtn_def Let_def)

lemma handleStepButtons_fs_idle:
  assumes "fs_stepBtn s = [idleBtn 2, idleBtn 3, idleBtn 4, idleBtn 5]"
  shows "handleStepButtons_fs (in_steps (idle_inputs t)) [0..<4] s = s"
proof -
  have u: "[0..<4] = [0, 1, 2, 3]" by (simp add: upt_rec)
  show ?thesis
    unfolding u using assms
    by (simp add: idle_inputs_def poll_idle)
qed

lemma handlePlayButton_fs_idle:
  assumes "fs_playBtn s = idleBtn 10"
  shows "handlePlayButton_fs (idle_inputs t) s = s"
  using assms by (simp add: handlePlayButton_fs_def idle_inputs_def poll_idle)

lemma loop_fs_idle:
  assumes "fs_stepBtn s = [idleBtn 2, idleBtn 3, idleBtn 4, idleBtn 5]" "fs_playBtn s = idleBtn 10"
  shows "loop_fs (idle_inputs t) s = runSequencer_fs t s"
    and "stepDue_fs (idle_inputs t) s = (fs_isPlaying s \<and> due t (fs_nextStepAtMs s))"
  using assms
  by (simp_all add: loop_fs_def stepDue_fs_def handleStepButtons_fs_idle handlePlayButton_fs_idle)
     (simp_all add: idle_inputs_def)

lemma runSequencer_fs_fields:
  "fs_stepBtn (runSequencer_fs now s) = fs_stepBtn s
 \<and> fs_playBtn (runSequencer_fs now s) = fs_playBtn s
 \<and> stepEnabled (runSequencer_fs now s) = stepEnabled s
 \<and> fs_isPlaying (runSequencer_fs now s) = fs_isPlaying s
 \<and> fs_stepIntervalMs (runSequencer_fs now s) = fs_stepIntervalMs s
 \<and> fs_nextStepAtMs (runSequencer_fs now s)
     = (if fs_isPlaying s \<and> due now (fs_nextStepAtMs s) then now + fs_stepIntervalMs s
        else fs_nextStepAtMs s)
 \<and> fs_stepIndex (runSequencer_fs now s)
     = (if fs_isPlaying s \<and> due now (fs_nextStepAtMs s) then (fs_stepIndex s + 1) AND 0x03
        else fs_stepIndex s)"
  by (simp add: runSequencer_fs_def Let_def)

lemma demo_fs_fields:
  "fs_stepBtn (demo_fs t) = [idleBtn 2, idleBtn 3, idleBtn 4, idleBtn 5]"
  "fs_playBtn (demo_fs t) = idleBtn 10"
  "fs_isPlaying (demo_fs t)"
  "fs_stepIndex (demo_fs t) = 0"
  "fs_stepIntervalMs (demo_fs t) = 472"
  "fs_nextStepAtMs (demo_fs t) = t"
  by (simp_all add: demo_fs_def)


section \<open>What a pass sends\<close>

lemma only_sends_refl: "only_sends P a a"
  by (simp add: only_sends_def)

lemma only_sends_append: "list_all P ms \<Longrightarrow> only_sends P a (a @ ms)"
  by (simp add: only_sends_def)

lemma only_sends_trans:
  assumes "only_sends P a b" "only_sends P b c"
  shows "only_sends P a c"
proof -
  from assms(1) obtain ms where b: "b = a @ ms" and pm: "list_all P ms"
    unfolding only_sends_def by (metis append_take_drop_id)
  from assms(2) obtain ns where c: "c = b @ ns" and pn: "list_all P ns"
    unfolding only_sends_def by (metis append_take_drop_id)
  from b c pm pn show ?thesis
    by (simp add: only_sends_def)
qed

lemma notesOff_only_sends:
  assumes "\<And>v. P (msg v)"
  shows "only_sends P (sent s) (sent (notesOff msg test vs s))"
proof (induction vs arbitrary: s)
  case Nil
  show ?case by (simp add: only_sends_refl)
next
  case (Cons v vs)
  let ?s' = "if noteActive s ! v \<and> test (noteOffAtMs s ! v)
             then s\<lparr>sent := sent s @ [msg v], noteActive := (noteActive s)[v := False]\<rparr> else s"
  have "only_sends P (sent s) (sent ?s')"
    using assms [of v] by (simp add: only_sends_refl only_sends_append)
  from only_sends_trans [OF this Cons.IH [of ?s']] show ?case by simp
qed

lemma notesOff_only_sends_from:
  assumes "\<And>v. P (msg v)" and "sent s = a"
  shows "only_sends P a (sent (notesOff msg test vs s))"
  using notesOff_only_sends [of P msg s test vs, OF assms(1)] assms(2) by simp

lemma notesOn_only_sends:
  assumes "\<And>v. P (msg v)"
  shows "only_sends P (sent s) (sent (notesOn msg dl vs s))"
  unfolding notesOn_sent
  by (intro only_sends_append) (simp add: list_all_iff assms)

lemma msgs_ok:
  "note_msg_ok (noteOffMsg tr v)"
  "note_msg_ok (noteOnMsg tr v)"
  "note_msg_ok (noteOffMsg_sw v)"
  "note_msg_ok (noteOnMsg_sw v)"
  "note_msg_ok (sendNoteOff DRUM_NOTE 0 MIDI_CHANNEL_fs)"
  "note_msg_ok (sendNoteOn DRUM_NOTE NOTE_VELOCITY MIDI_CHANNEL_fs)"
  by (cases tr; simp add: note_msg_ok_def is_note_on_def is_note_off_def sendNoteOn_def
      sendNoteOff_def sendNoteOn_din_def sendNoteOff_din_def midiSend3_def noteOffMsg_sw_def
      noteOnMsg_sw_def sendNoteOn_sw_def sendNoteOff_sw_def MIDI_CHANNEL_sw_def
      MIDI_CHANNEL_fs_def NOTE_VELOCITY_def)+

lemma handlePlayButton_fs_only_sends:
  "only_sends note_msg_ok (fs_sent s) (fs_sent (handlePlayButton_fs i s))"
  by (simp add: handlePlayButton_fs_def Let_def only_sends_refl only_sends_append msgs_ok
      split: prod.splits)

lemma runSequencer_fs_only_sends:
  "only_sends note_msg_ok (fs_sent s) (fs_sent (runSequencer_fs now s))"
  by (simp add: runSequencer_fs_def Let_def only_sends_refl only_sends_append msgs_ok)

lemma loop_fs_only_sends:
  "only_sends note_msg_ok (fs_sent s) (fs_sent (loop_fs i s))"
proof -
  let ?s1 = "handleStepButtons_fs (in_steps i) [0..<4] s"
  have "fs_sent ?s1 = fs_sent s" by (simp only: handleStepButtons_fs_frame)
  with handlePlayButton_fs_only_sends [of ?s1 i]
  have "only_sends note_msg_ok (fs_sent s) (fs_sent (handlePlayButton_fs i ?s1))" by simp
  from only_sends_trans [OF this runSequencer_fs_only_sends]
  show ?thesis unfolding loop_fs_def .
qed

lemma handlePlayButton_only_sends:
  "only_sends note_msg_ok (sent s) (sent (handlePlayButton tr i s))"
proof -
  obtain e b where p: "pollEdgeFalling (playBtn s) DEBOUNCE_PLAY_MS (fst (in_play i)) (snd (in_play i)) = (e, b)"
    by (cases "pollEdgeFalling (playBtn s) DEBOUNCE_PLAY_MS (fst (in_play i)) (snd (in_play i))")
  show ?thesis
    by (simp add: handlePlayButton_def p Let_def only_sends_refl
        notesOff_only_sends_from [where P = note_msg_ok and msg = "noteOffMsg tr", OF msgs_ok(1)])
qed

lemma runSequencer_only_sends:
  "only_sends note_msg_ok (sent s) (sent (runSequencer tr now s))"
proof -
  let ?s1 = "notesOff (noteOffMsg tr) (due now) [0..<VOICE_COUNT] s"
  have a: "only_sends note_msg_ok (sent s) (sent ?s1)"
    by (rule notesOff_only_sends) (rule msgs_ok)
  have b: "only_sends note_msg_ok (sent ?s1)
      (sent (notesOn (noteOnMsg tr) dl [0..<VOICE_COUNT] ?s1))" for dl
    by (rule notesOn_only_sends) (rule msgs_ok)
  show ?thesis
    using a only_sends_trans [OF a b]
    by (simp add: runSequencer_def Let_def)
qed

lemma loop_mv_only_sends:
  "only_sends note_msg_ok (sent s) (sent (loop_mv tr i s))"
proof -
  let ?s1 = "handleStepButtons i (handleInstrumentButton i s)"
  have "sent ?s1 = sent s"
    unfolding handleStepButtons_def by (simp only: stepButtons_frame handleInstrumentButton_frame)
  with handlePlayButton_only_sends [of ?s1 tr i]
  have "only_sends note_msg_ok (sent s) (sent (handlePlayButton tr i ?s1))" by simp
  from only_sends_trans [OF this runSequencer_only_sends]
  show ?thesis unfolding loop_mv_def .
qed

lemma playToggle_sw_only_sends:
  "only_sends note_msg_ok (sent s) (sent (playToggle_sw i s))"
proof -
  obtain e b where p: "pollFalling (playBtn s) 30 (fst (in_play i)) (snd (in_play i)) = (e, b)"
    by (cases "pollFalling (playBtn s) 30 (fst (in_play i)) (snd (in_play i))")
  show ?thesis
    by (simp add: playToggle_sw_def p Let_def only_sends_refl
        notesOff_only_sends_from [where P = note_msg_ok and msg = noteOffMsg_sw, OF msgs_ok(3)])
qed

lemma sequencer_sw_only_sends:
  "only_sends note_msg_ok (sent s) (sent (sequencer_sw i s))"
proof -
  let ?s0 = "s\<lparr>stepIntervalMs := word_of_int (trunc_int (fl (60000 / bpm_of (tempoRaw i))))\<rparr>"
  let ?s1 = "notesOff noteOffMsg_sw (due_sw (t_seq i)) [0..<VOICE_COUNT] ?s0"
  have a: "only_sends note_msg_ok (sent s) (sent ?s1)"
    using notesOff_only_sends [of note_msg_ok noteOffMsg_sw ?s0, OF msgs_ok(3)] by simp
  have b: "only_sends note_msg_ok (sent ?s1)
      (sent (notesOn noteOnMsg_sw dl [0..<VOICE_COUNT] ?s1))" for dl
    by (rule notesOn_only_sends) (rule msgs_ok)
  show ?thesis
    using a only_sends_trans [OF a b]
    by (simp add: sequencer_sw_def Let_def only_sends_refl)
qed

lemma loop_sw_only_sends:
  "only_sends note_msg_ok (sent s) (sent (loop_sw i s))"
proof -
  let ?s1 = "stepButtons pollFalling (in_steps i) [0..<4] (selectVoice_sw i s)"
  have "sent ?s1 = sent s"
    by (simp only: stepButtons_frame selectVoice_sw_frame)
  with playToggle_sw_only_sends [of ?s1 i]
  have "only_sends note_msg_ok (sent s) (sent (playToggle_sw i ?s1))" by simp
  from only_sends_trans [OF this sequencer_sw_only_sends]
  show ?thesis unfolding loop_sw_def .
qed

text \<open>
  Claim C10 (note-off velocity). In every sketch, whatever one pass of \<open>loop()\<close> sends is
  appended to what was sent before, and each message it sends is either a Note Off with
  velocity 0 or a Note On with velocity \<open>NOTE_VELOCITY = 110\<close>: no Note Off, from gate
  expiry or from the stop flush, carries the Note On velocity.
\<close>

theorem note_off_velocity_zero:
  "only_sends note_msg_ok (fs_sent fs) (fs_sent (loop_fs i fs))
 \<and> only_sends note_msg_ok (sent s) (sent (loop_mv tr i s))
 \<and> only_sends note_msg_ok (sent s) (sent (loop_sw i s))
 \<and> NOTE_VELOCITY = 110"
  using loop_fs_only_sends loop_mv_only_sends loop_sw_only_sends
  by (simp add: NOTE_VELOCITY_def)

section \<open>Stopping\<close>

lemma notesOff_none:
  assumes "\<forall>v \<in> set vs. \<not> noteActive s ! v"
  shows "notesOff msg test vs s = s"
  using assms by (induction vs arbitrary: s) simp_all

lemma sounding_Nil_iff:
  "sounding s = [] \<longleftrightarrow> (\<forall>v \<in> set [0..<VOICE_COUNT]. \<not> noteActive s ! v)"
  by (simp add: sounding_def filter_empty_conv)

lemma sounding_cong:
  "noteActive s' = noteActive s \<Longrightarrow> sounding s' = sounding s"
  by (simp add: sounding_def)

lemma flush_all:
  assumes "length (noteActive s) = VOICE_COUNT"
  shows "sent (notesOff msg (\<lambda>d. True) [0..<VOICE_COUNT] s) = sent s @ map msg (sounding s)"
    and "sounding (notesOff msg (\<lambda>d. True) [0..<VOICE_COUNT] s) = []"
proof -
  show "sent (notesOff msg (\<lambda>d. True) [0..<VOICE_COUNT] s) = sent s @ map msg (sounding s)"
    by (simp add: notesOff_sent sounding_def)
  show "sounding (notesOff msg (\<lambda>d. True) [0..<VOICE_COUNT] s) = []"
    unfolding sounding_Nil_iff using assms by (simp add: notesOff_active)
qed

lemma expiry_silent:
  assumes "sounding s = []"
  shows "notesOff msg test [0..<VOICE_COUNT] s = s"
  using assms unfolding sounding_Nil_iff by (rule notesOff_none)

lemma pre_mv_frame:
  "playBtn (handleStepButtons i (handleInstrumentButton i s)) = playBtn s
 \<and> isPlaying (handleStepButtons i (handleInstrumentButton i s)) = isPlaying s
 \<and> noteActive (handleStepButtons i (handleInstrumentButton i s)) = noteActive s
 \<and> noteOffAtMs (handleStepButtons i (handleInstrumentButton i s)) = noteOffAtMs s
 \<and> stepIntervalMs (handleStepButtons i (handleInstrumentButton i s)) = stepIntervalMs s
 \<and> nextStepAtMs (handleStepButtons i (handleInstrumentButton i s)) = nextStepAtMs s
 \<and> stepIndex (handleStepButtons i (handleInstrumentButton i s)) = stepIndex s
 \<and> sent (handleStepButtons i (handleInstrumentButton i s)) = sent s"
  unfolding handleStepButtons_def
  by (simp only: stepButtons_frame handleInstrumentButton_frame simp_thms)

lemma handlePlayButton_cases:
  "handlePlayButton tr i s =
     (if fst (pollEdgeFalling (playBtn s) DEBOUNCE_PLAY_MS (fst (in_play i)) (snd (in_play i)))
      then (if isPlaying s
            then notesOff (noteOffMsg tr) (\<lambda>d. True) [0..<VOICE_COUNT]
                   (s\<lparr>playBtn := snd (pollEdgeFalling (playBtn s) DEBOUNCE_PLAY_MS
                                       (fst (in_play i)) (snd (in_play i))),
                      isPlaying := False\<rparr>)
            else s\<lparr>playBtn := snd (pollEdgeFalling (playBtn s) DEBOUNCE_PLAY_MS
                                       (fst (in_play i)) (snd (in_play i))),
                   isPlaying := True, nextStepAtMs := t_play i + stepIntervalMs s\<rparr>)
      else s\<lparr>playBtn := snd (pollEdgeFalling (playBtn s) DEBOUNCE_PLAY_MS
                                       (fst (in_play i)) (snd (in_play i)))\<rparr>)"
  by (simp add: handlePlayButton_def Let_def split: prod.splits)

lemma runSequencer_isPlaying: "isPlaying (runSequencer tr now s) = isPlaying s"
  by (simp add: runSequencer_def Let_def notesOff_frame notesOn_frame)

lemma runSequencer_playBtn: "playBtn (runSequencer tr now s) = playBtn s"
  by (simp add: runSequencer_def Let_def notesOff_frame notesOn_frame)

lemma runSequencer_lengths:
  "length (noteActive (runSequencer tr now s)) = length (noteActive s)
 \<and> length (noteOffAtMs (runSequencer tr now s)) = length (noteOffAtMs s)"
  by (simp add: runSequencer_def Let_def notesOff_frame notesOn_frame)

lemma runSequencer_stopped:
  assumes "\<not> isPlaying s" "sounding s = []"
  shows "runSequencer tr now s = s"
  using assms by (simp add: runSequencer_def Let_def expiry_silent)

lemma loop_mv_isPlaying:
  "isPlaying (loop_mv tr i s)
     = (isPlaying s \<noteq> fst (pollEdgeFalling (playBtn s) DEBOUNCE_PLAY_MS (fst (in_play i)) (snd (in_play i))))"
  unfolding loop_mv_def runSequencer_isPlaying
  by (simp add: handlePlayButton_cases pre_mv_frame notesOff_frame)

lemma loop_mv_playBtn:
  "playBtn (loop_mv tr i s)
     = snd (pollEdgeFalling (playBtn s) DEBOUNCE_PLAY_MS (fst (in_play i)) (snd (in_play i)))"
  unfolding loop_mv_def runSequencer_playBtn
  by (simp add: handlePlayButton_cases pre_mv_frame notesOff_frame)

lemma loop_mv_wf: "wf_voices s \<Longrightarrow> wf_voices (loop_mv tr i s)"
  unfolding loop_mv_def wf_voices_def
  by (simp add: runSequencer_lengths handlePlayButton_cases pre_mv_frame notesOff_frame)

lemma loop_mv_stop:
  assumes wf: "wf_voices s" and p: "isPlaying s" and np: "\<not> isPlaying (loop_mv tr i s)"
  shows "sent (loop_mv tr i s) = sent s @ map (noteOffMsg tr) (sounding s)"
    and "sounding (loop_mv tr i s) = []"
proof -
  let ?pre = "handleStepButtons i (handleInstrumentButton i s)"
  let ?b = "snd (pollEdgeFalling (playBtn s) DEBOUNCE_PLAY_MS (fst (in_play i)) (snd (in_play i)))"
  let ?s1 = "?pre\<lparr>playBtn := ?b, isPlaying := False\<rparr>"
  let ?s2 = "notesOff (noteOffMsg tr) (\<lambda>d. True) [0..<VOICE_COUNT] ?s1"
  from p np have e: "fst (pollEdgeFalling (playBtn s) DEBOUNCE_PLAY_MS (fst (in_play i)) (snd (in_play i)))"
    by (simp add: loop_mv_isPlaying)
  with p have h: "handlePlayButton tr i ?pre = ?s2"
    by (simp add: handlePlayButton_cases pre_mv_frame)
  from wf have len: "length (noteActive ?s1) = VOICE_COUNT"
    by (simp add: wf_voices_def pre_mv_frame)
  have snd1: "sounding ?s1 = sounding s"
    by (rule sounding_cong) (simp add: pre_mv_frame)
  have sent2: "sent ?s2 = sent s @ map (noteOffMsg tr) (sounding s)"
    using flush_all(1) [OF len, of "noteOffMsg tr"] snd1 by (simp add: pre_mv_frame)
  have quiet2: "sounding ?s2 = []"
    by (rule flush_all(2) [OF len])
  have np2: "\<not> isPlaying ?s2" by (simp add: notesOff_frame)
  have "loop_mv tr i s = ?s2"
    unfolding loop_mv_def h by (rule runSequencer_stopped [OF np2 quiet2])
  with sent2 quiet2 show "sent (loop_mv tr i s) = sent s @ map (noteOffMsg tr) (sounding s)"
    and "sounding (loop_mv tr i s) = []" by simp_all
qed

lemma loop_mv_quiet:
  assumes q: "wf_voices s \<and> \<not> isPlaying s \<and> sounding s = []" and np: "\<not> isPlaying (loop_mv tr i s)"
  shows "(wf_voices (loop_mv tr i s) \<and> \<not> isPlaying (loop_mv tr i s) \<and> sounding (loop_mv tr i s) = [])
       \<and> sent (loop_mv tr i s) = sent s"
proof -
  let ?pre = "handleStepButtons i (handleInstrumentButton i s)"
  let ?b = "snd (pollEdgeFalling (playBtn s) DEBOUNCE_PLAY_MS (fst (in_play i)) (snd (in_play i)))"
  from q np have e: "\<not> fst (pollEdgeFalling (playBtn s) DEBOUNCE_PLAY_MS (fst (in_play i)) (snd (in_play i)))"
    by (simp add: loop_mv_isPlaying)
  then have h: "handlePlayButton tr i ?pre = ?pre\<lparr>playBtn := ?b\<rparr>"
    by (simp add: handlePlayButton_cases pre_mv_frame)
  have s1: "sounding (?pre\<lparr>playBtn := ?b\<rparr>) = sounding s"
    by (rule sounding_cong) (simp add: pre_mv_frame)
  have "loop_mv tr i s = ?pre\<lparr>playBtn := ?b\<rparr>"
    unfolding loop_mv_def h using q s1
    by (intro runSequencer_stopped) (simp_all add: pre_mv_frame)
  then show ?thesis
    using q s1 np loop_mv_wf [of s tr i] by (simp add: pre_mv_frame)
qed

lemma pre_sw_frame:
  "playBtn (stepButtons pollFalling rd is (selectVoice_sw i s)) = playBtn s
 \<and> isPlaying (stepButtons pollFalling rd is (selectVoice_sw i s)) = isPlaying s
 \<and> noteActive (stepButtons pollFalling rd is (selectVoice_sw i s)) = noteActive s
 \<and> noteOffAtMs (stepButtons pollFalling rd is (selectVoice_sw i s)) = noteOffAtMs s
 \<and> stepIntervalMs (stepButtons pollFalling rd is (selectVoice_sw i s)) = stepIntervalMs s
 \<and> nextStepAtMs (stepButtons pollFalling rd is (selectVoice_sw i s)) = nextStepAtMs s
 \<and> stepIndex (stepButtons pollFalling rd is (selectVoice_sw i s)) = stepIndex s
 \<and> sent (stepButtons pollFalling rd is (selectVoice_sw i s)) = sent s"
  by (simp only: stepButtons_frame selectVoice_sw_frame simp_thms)

lemma playToggle_sw_cases:
  "playToggle_sw i s =
     (if fst (pollFalling (playBtn s) 30 (fst (in_play i)) (snd (in_play i)))
      then (if isPlaying s
            then notesOff noteOffMsg_sw (\<lambda>d. True) [0..<VOICE_COUNT]
                   (s\<lparr>playBtn := snd (pollFalling (playBtn s) 30 (fst (in_play i)) (snd (in_play i))),
                      isPlaying := False, stepIndex := 0, nextStepAtMs := t_seq i\<rparr>)
            else s\<lparr>playBtn := snd (pollFalling (playBtn s) 30 (fst (in_play i)) (snd (in_play i))),
                   isPlaying := True, stepIndex := 0, nextStepAtMs := t_seq i\<rparr>)
      else s\<lparr>playBtn := snd (pollFalling (playBtn s) 30 (fst (in_play i)) (snd (in_play i)))\<rparr>)"
  by (simp add: playToggle_sw_def Let_def split: prod.splits)

lemma sequencer_sw_frame:
  "isPlaying (sequencer_sw i s) = isPlaying s
 \<and> playBtn (sequencer_sw i s) = playBtn s
 \<and> length (noteActive (sequencer_sw i s)) = length (noteActive s)
 \<and> length (noteOffAtMs (sequencer_sw i s)) = length (noteOffAtMs s)"
  by (simp add: sequencer_sw_def Let_def notesOff_frame notesOn_frame)

lemma sequencer_sw_stopped:
  assumes "\<not> isPlaying s" "sounding s = []"
  shows "sent (sequencer_sw i s) = sent s \<and> noteActive (sequencer_sw i s) = noteActive s"
proof -
  let ?s0 = "s\<lparr>stepIntervalMs := word_of_int (trunc_int (fl (60000 / bpm_of (tempoRaw i))))\<rparr>"
  have "sounding ?s0 = []" using assms(2) by (simp add: sounding_def)
  from expiry_silent [OF this] assms(1) show ?thesis
    by (simp add: sequencer_sw_def Let_def)
qed

lemma loop_sw_isPlaying:
  "isPlaying (loop_sw i s)
     = (isPlaying s \<noteq> fst (pollFalling (playBtn s) 30 (fst (in_play i)) (snd (in_play i))))"
  unfolding loop_sw_def
  by (simp add: sequencer_sw_frame playToggle_sw_cases pre_sw_frame notesOff_frame)

lemma loop_sw_playBtn:
  "playBtn (loop_sw i s) = snd (pollFalling (playBtn s) 30 (fst (in_play i)) (snd (in_play i)))"
  unfolding loop_sw_def
  by (simp add: sequencer_sw_frame playToggle_sw_cases pre_sw_frame notesOff_frame)

lemma loop_sw_wf: "wf_voices s \<Longrightarrow> wf_voices (loop_sw i s)"
  unfolding loop_sw_def wf_voices_def
  by (simp add: sequencer_sw_frame playToggle_sw_cases pre_sw_frame notesOff_frame)

lemma loop_sw_stop:
  assumes wf: "wf_voices s" and p: "isPlaying s" and np: "\<not> isPlaying (loop_sw i s)"
  shows "sent (loop_sw i s) = sent s @ map noteOffMsg_sw (sounding s)"
    and "sounding (loop_sw i s) = []"
proof -
  let ?pre = "stepButtons pollFalling (in_steps i) [0..<4] (selectVoice_sw i s)"
  let ?b = "snd (pollFalling (playBtn s) 30 (fst (in_play i)) (snd (in_play i)))"
  let ?s1 = "?pre\<lparr>playBtn := ?b, isPlaying := False, stepIndex := 0, nextStepAtMs := t_seq i\<rparr>"
  let ?s2 = "notesOff noteOffMsg_sw (\<lambda>d. True) [0..<VOICE_COUNT] ?s1"
  from p np have e: "fst (pollFalling (playBtn s) 30 (fst (in_play i)) (snd (in_play i)))"
    by (simp add: loop_sw_isPlaying)
  with p have h: "playToggle_sw i ?pre = ?s2"
    by (simp add: playToggle_sw_cases pre_sw_frame)
  from wf have len: "length (noteActive ?s1) = VOICE_COUNT"
    by (simp add: wf_voices_def pre_sw_frame)
  have snd1: "sounding ?s1 = sounding s"
    by (rule sounding_cong) (simp add: pre_sw_frame)
  have sent2: "sent ?s2 = sent s @ map noteOffMsg_sw (sounding s)"
    using flush_all(1) [OF len, of noteOffMsg_sw] snd1 by (simp add: pre_sw_frame)
  have quiet2: "sounding ?s2 = []"
    by (rule flush_all(2) [OF len])
  have np2: "\<not> isPlaying ?s2" by (simp add: notesOff_frame)
  note fin = sequencer_sw_stopped [OF np2 quiet2, of i]
  from fin sent2 show "sent (loop_sw i s) = sent s @ map noteOffMsg_sw (sounding s)"
    unfolding loop_sw_def h by simp
  from fin quiet2 show "sounding (loop_sw i s) = []"
    unfolding loop_sw_def h by (simp add: sounding_def)
qed

lemma loop_sw_quiet:
  assumes q: "wf_voices s \<and> \<not> isPlaying s \<and> sounding s = []" and np: "\<not> isPlaying (loop_sw i s)"
  shows "(wf_voices (loop_sw i s) \<and> \<not> isPlaying (loop_sw i s) \<and> sounding (loop_sw i s) = [])
       \<and> sent (loop_sw i s) = sent s"
proof -
  let ?pre = "stepButtons pollFalling (in_steps i) [0..<4] (selectVoice_sw i s)"
  let ?b = "snd (pollFalling (playBtn s) 30 (fst (in_play i)) (snd (in_play i)))"
  from q np have e: "\<not> fst (pollFalling (playBtn s) 30 (fst (in_play i)) (snd (in_play i)))"
    by (simp add: loop_sw_isPlaying)
  then have h: "playToggle_sw i ?pre = ?pre\<lparr>playBtn := ?b\<rparr>"
    by (simp add: playToggle_sw_cases pre_sw_frame)
  have s1: "sounding (?pre\<lparr>playBtn := ?b\<rparr>) = sounding s"
    by (rule sounding_cong) (simp add: pre_sw_frame)
  have np1: "\<not> isPlaying (?pre\<lparr>playBtn := ?b\<rparr>)" using q by (simp add: pre_sw_frame)
  from q s1 have q1: "sounding (?pre\<lparr>playBtn := ?b\<rparr>) = []" by simp
  note fin = sequencer_sw_stopped [OF np1 q1, of i]
  from fin q np loop_sw_wf [of s i] show ?thesis
    unfolding loop_sw_def h by (simp add: pre_sw_frame sounding_def)
qed

lemma quiet_run:
  assumes step: "\<And>i s. Q s \<Longrightarrow> \<not> playing (f i s) \<Longrightarrow> Q (f i s) \<and> snt (f i s) = snt s"
  shows "Q s \<Longrightarrow> stays_stopped f playing s is \<Longrightarrow> snt (run f s is) = snt s"
proof (induction "is" arbitrary: s)
  case Nil
  show ?case by simp
next
  case (Cons i "is")
  from Cons.prems have np: "\<not> playing (f i s)" and rest: "stays_stopped f playing (f i s) is"
    by simp_all
  from step [OF Cons.prems(1) np] have q: "Q (f i s)" and e: "snt (f i s) = snt s" by simp_all
  from Cons.IH [OF q rest] e show ?case by simp
qed

lemma noteOff_is_off:
  "is_note_off (noteOffMsg tr v) \<and> \<not> is_note_on (noteOffMsg tr v)"
  "is_note_off (noteOffMsg_sw v) \<and> \<not> is_note_on (noteOffMsg_sw v)"
  by (cases tr; simp add: is_note_on_def is_note_off_def sendNoteOff_def sendNoteOff_din_def
      midiSend3_def noteOffMsg_sw_def sendNoteOff_sw_def MIDI_CHANNEL_sw_def)+

lemma noteOff_msgs:
  "list_all (\<lambda>m. is_note_off m \<and> \<not> is_note_on m) (map (noteOffMsg tr) vs)"
  "list_all (\<lambda>m. is_note_off m \<and> \<not> is_note_on m) (map noteOffMsg_sw vs)"
  by (simp_all add: list_all_iff noteOff_is_off)

text \<open>
  Claim C4 (stop flushes). Take a multi-voice sketch (USB or DIN) or the swing sketch in a
  state that is playing. A pass of \<open>loop()\<close> leaves it stopped exactly when the play
  button's debounced falling edge arrives in that pass. Such a pass sends exactly one Note
  Off per sounding voice, in voice order, and nothing else, and leaves no voice sounding.
  Over any later passes after each of which the engine is still stopped, nothing more is
  sent, so no Note On is sent until the engine plays again.
\<close>

theorem stop_flushes:
  assumes wf: "wf_voices s" and playing: "isPlaying s"
  shows "isPlaying (loop_mv tr i s)
           = (\<not> fst (pollEdgeFalling (playBtn s) DEBOUNCE_PLAY_MS (fst (in_play i)) (snd (in_play i))))
       \<and> isPlaying (loop_sw i s)
           = (\<not> fst (pollFalling (playBtn s) 30 (fst (in_play i)) (snd (in_play i))))
       \<and> (\<not> isPlaying (loop_mv tr i s) \<longrightarrow>
            sent (loop_mv tr i s) = sent s @ map (noteOffMsg tr) (sounding s)
          \<and> list_all (\<lambda>m. is_note_off m \<and> \<not> is_note_on m) (map (noteOffMsg tr) (sounding s))
          \<and> sounding (loop_mv tr i s) = []
          \<and> (stays_stopped (loop_mv tr) isPlaying (loop_mv tr i s) later \<longrightarrow>
               sent (run (loop_mv tr) (loop_mv tr i s) later) = sent (loop_mv tr i s)))
       \<and> (\<not> isPlaying (loop_sw i s) \<longrightarrow>
            sent (loop_sw i s) = sent s @ map noteOffMsg_sw (sounding s)
          \<and> list_all (\<lambda>m. is_note_off m \<and> \<not> is_note_on m) (map noteOffMsg_sw (sounding s))
          \<and> sounding (loop_sw i s) = []
          \<and> (stays_stopped loop_sw isPlaying (loop_sw i s) later \<longrightarrow>
               sent (run loop_sw (loop_sw i s) later) = sent (loop_sw i s)))"
proof (intro conjI impI)
  show "isPlaying (loop_mv tr i s)
           = (\<not> fst (pollEdgeFalling (playBtn s) DEBOUNCE_PLAY_MS (fst (in_play i)) (snd (in_play i))))"
    using playing by (simp add: loop_mv_isPlaying)
  show "isPlaying (loop_sw i s)
           = (\<not> fst (pollFalling (playBtn s) 30 (fst (in_play i)) (snd (in_play i))))"
    using playing by (simp add: loop_sw_isPlaying)
next
  assume np: "\<not> isPlaying (loop_mv tr i s)"
  show a: "sent (loop_mv tr i s) = sent s @ map (noteOffMsg tr) (sounding s)"
    by (rule loop_mv_stop(1) [OF wf playing np])
  show b: "sounding (loop_mv tr i s) = []"
    by (rule loop_mv_stop(2) [OF wf playing np])
  show "list_all (\<lambda>m. is_note_off m \<and> \<not> is_note_on m) (map (noteOffMsg tr) (sounding s))"
    by (rule noteOff_msgs)
  assume st: "stays_stopped (loop_mv tr) isPlaying (loop_mv tr i s) later"
  have q: "wf_voices (loop_mv tr i s) \<and> \<not> isPlaying (loop_mv tr i s) \<and> sounding (loop_mv tr i s) = []"
    using loop_mv_wf [OF wf] np b by simp
  show "sent (run (loop_mv tr) (loop_mv tr i s) later) = sent (loop_mv tr i s)"
    by (rule quiet_run [where Q = "\<lambda>s. wf_voices s \<and> \<not> isPlaying s \<and> sounding s = []",
          OF loop_mv_quiet q st])
next
  assume np: "\<not> isPlaying (loop_sw i s)"
  show a: "sent (loop_sw i s) = sent s @ map noteOffMsg_sw (sounding s)"
    by (rule loop_sw_stop(1) [OF wf playing np])
  show b: "sounding (loop_sw i s) = []"
    by (rule loop_sw_stop(2) [OF wf playing np])
  show "list_all (\<lambda>m. is_note_off m \<and> \<not> is_note_on m) (map noteOffMsg_sw (sounding s))"
    by (rule noteOff_msgs)
  assume st: "stays_stopped loop_sw isPlaying (loop_sw i s) later"
  have q: "wf_voices (loop_sw i s) \<and> \<not> isPlaying (loop_sw i s) \<and> sounding (loop_sw i s) = []"
    using loop_sw_wf [OF wf] np b by simp
  show "sent (run loop_sw (loop_sw i s) later) = sent (loop_sw i s)"
    by (rule quiet_run [where Q = "\<lambda>s. wf_voices s \<and> \<not> isPlaying s \<and> sounding s = []",
          OF loop_sw_quiet q st])
qed

theorem stop_flushes_witness:
  "wf_voices (demo_mv (pressedBtn 10) 472 120)
 \<and> isPlaying (demo_mv (pressedBtn 10) 472 120)
 \<and> fst (pollEdgeFalling (playBtn (demo_mv (pressedBtn 10) 472 120)) DEBOUNCE_PLAY_MS
        (fst (in_play (press_inputs 100))) (snd (in_play (press_inputs 100))))
 \<and> \<not> isPlaying (loop_mv USB_MIDI (press_inputs 100) (demo_mv (pressedBtn 10) 472 120))
 \<and> sent (loop_mv USB_MIDI (press_inputs 100) (demo_mv (pressedBtn 10) 472 120))
     = [UsbPacket 0x08 0x89 36 0, UsbPacket 0x08 0x89 42 0]
 \<and> sounding (loop_mv USB_MIDI (press_inputs 100) (demo_mv (pressedBtn 10) 472 120)) = []
 \<and> stays_stopped (loop_mv USB_MIDI) isPlaying
       (loop_mv USB_MIDI (press_inputs 100) (demo_mv (pressedBtn 10) 472 120))
       [press_inputs 200, idle_inputs 300]
 \<and> sent (run (loop_mv USB_MIDI)
       (loop_mv USB_MIDI (press_inputs 100) (demo_mv (pressedBtn 10) 472 120))
       [press_inputs 200, idle_inputs 300])
     = [UsbPacket 0x08 0x89 36 0, UsbPacket 0x08 0x89 42 0]
 \<and> fst (pollFalling (playBtn (demo_mv (pressedBtn 10) 472 120)) 30
        (fst (in_play (press_inputs 100))) (snd (in_play (press_inputs 100))))
 \<and> \<not> isPlaying (loop_sw (press_inputs 100) (demo_mv (pressedBtn 10) 472 120))
 \<and> sent (loop_sw (press_inputs 100) (demo_mv (pressedBtn 10) 472 120))
     = [UsbPacket 0x08 0x80 36 0, UsbPacket 0x08 0x80 42 0]
 \<and> sounding (loop_sw (press_inputs 100) (demo_mv (pressedBtn 10) 472 120)) = []
 \<and> stays_stopped loop_sw isPlaying
       (loop_sw (press_inputs 100) (demo_mv (pressedBtn 10) 472 120))
       [press_inputs 200, idle_inputs 300]
 \<and> sent (run loop_sw
       (loop_sw (press_inputs 100) (demo_mv (pressedBtn 10) 472 120))
       [press_inputs 200, idle_inputs 300])
     = [UsbPacket 0x08 0x80 36 0, UsbPacket 0x08 0x80 42 0]"
proof -
  let ?s = "demo_mv (pressedBtn 10) 472 120"
  let ?i = "press_inputs 100"
  let ?later = "[press_inputs 200, idle_inputs 300]"
  have wf: "wf_voices ?s" by (simp add: wf_voices_def demo_mv_def VOICE_COUNT_def)
  have pl: "isPlaying ?s" by (simp add: demo_mv_def)
  have e1: "fst (pollEdgeFalling (playBtn ?s) DEBOUNCE_PLAY_MS (fst (in_play ?i)) (snd (in_play ?i)))"
    by (simp add: demo_mv_def pressedBtn_def press_inputs_def idle_inputs_def
        pollEdgeFalling_def DEBOUNCE_PLAY_MS_def Let_def)
  have e2: "fst (pollFalling (playBtn ?s) 30 (fst (in_play ?i)) (snd (in_play ?i)))"
    by (simp add: demo_mv_def pressedBtn_def press_inputs_def idle_inputs_def
        pollFalling_def Let_def)
  note t = stop_flushes [OF wf pl, where tr = USB_MIDI and i = ?i and later = ?later]
  from t e1 have np: "\<not> isPlaying (loop_mv USB_MIDI ?i ?s)" by blast
  from t e2 have np2: "\<not> isPlaying (loop_sw ?i ?s)" by blast
  have st: "stays_stopped (loop_mv USB_MIDI) isPlaying (loop_mv USB_MIDI ?i ?s) ?later"
    using np
    by (simp add: loop_mv_isPlaying loop_mv_playBtn demo_mv_def pressedBtn_def press_inputs_def
        idle_inputs_def pollEdgeFalling_def DEBOUNCE_PLAY_MS_def Let_def)
  have st2: "stays_stopped loop_sw isPlaying (loop_sw ?i ?s) ?later"
    using np2
    by (simp add: loop_sw_isPlaying loop_sw_playBtn demo_mv_def pressedBtn_def press_inputs_def
        idle_inputs_def pollFalling_def Let_def)
  have snd: "sounding ?s = [0, 2]"
    by (simp add: sounding_def demo_mv_def VOICE_COUNT_def upt_rec)
  have msgs: "map (noteOffMsg USB_MIDI) [0, 2] = [UsbPacket 0x08 0x89 36 0, UsbPacket 0x08 0x89 42 0]"
    by (simp add: sendNoteOff_def)
  have msgs2: "map noteOffMsg_sw [0, 2] = [UsbPacket 0x08 0x80 36 0, UsbPacket 0x08 0x80 42 0]"
    by (simp add: noteOffMsg_sw_def sendNoteOff_sw_def VOICE_NOTES_sw_def MIDI_CHANNEL_sw_def)
  have s0: "sent ?s = []" by (simp add: demo_mv_def)
  from t np st
  have a: "sent (loop_mv USB_MIDI ?i ?s) = sent ?s @ map (noteOffMsg USB_MIDI) (sounding ?s)"
    and b: "sounding (loop_mv USB_MIDI ?i ?s) = []"
    and c: "sent (run (loop_mv USB_MIDI) (loop_mv USB_MIDI ?i ?s) ?later) = sent (loop_mv USB_MIDI ?i ?s)"
    by blast+
  from t np2 st2
  have a2: "sent (loop_sw ?i ?s) = sent ?s @ map noteOffMsg_sw (sounding ?s)"
    and b2: "sounding (loop_sw ?i ?s) = []"
    and c2: "sent (run loop_sw (loop_sw ?i ?s) ?later) = sent (loop_sw ?i ?s)"
    by blast+
  from a c have a': "sent (loop_mv USB_MIDI ?i ?s) = [UsbPacket 0x08 0x89 36 0, UsbPacket 0x08 0x89 42 0]"
    and c': "sent (run (loop_mv USB_MIDI) (loop_mv USB_MIDI ?i ?s) ?later)
        = [UsbPacket 0x08 0x89 36 0, UsbPacket 0x08 0x89 42 0]"
    unfolding snd msgs s0 by simp_all
  from a2 c2 have a2': "sent (loop_sw ?i ?s) = [UsbPacket 0x08 0x80 36 0, UsbPacket 0x08 0x80 42 0]"
    and c2': "sent (run loop_sw (loop_sw ?i ?s) ?later)
        = [UsbPacket 0x08 0x80 36 0, UsbPacket 0x08 0x80 42 0]"
    unfolding snd msgs2 s0 by simp_all
  from wf pl e1 np a' b st c' e2 np2 a2' b2 st2 c2' show ?thesis
    by (intro conjI)
qed

section \<open>The gate\<close>

lemma gate_mv_uint:
  "uint (gate_mv interval)
     = (if 120 \<le> uint interval then 120 else if 10 < uint interval then uint interval - 10
        else uint interval)"
proof -
  have c: "(ucast GATE_MS_BASE :: u32) = 120" by (simp add: GATE_MS_BASE_def)
  show ?thesis
  proof (cases "120 \<le> uint interval")
    case True
    then have "\<not> (120 :: u32) > interval" by (simp add: word_less_def)
    then show ?thesis using True by (simp add: gate_mv_def c GATE_MS_BASE_def)
  next
    case False
    then have lt: "(120 :: u32) > interval" by (simp add: word_less_def)
    show ?thesis
    proof (cases "10 < uint interval")
      case True
      then have g: "interval > 10" by (simp add: word_less_def)
      then have "uint (interval - 10) = uint interval - 10"
        by (simp add: uint_sub_if' word_le_def word_less_def)
      moreover have "uint (ucast (interval - 10) :: u16) = uint (interval - 10) mod 2 ^ 16"
        by (simp add: take_bit_eq_mod unsigned_ucast_eq)
      ultimately show ?thesis using True False lt g
        by (simp add: gate_mv_def c)
    next
      case F2: False
      then have g: "\<not> interval > 10" by (simp add: word_less_def)
      have "uint (ucast interval :: u16) = uint interval mod 2 ^ 16"
        by (simp add: take_bit_eq_mod unsigned_ucast_eq)
      then show ?thesis using F2 False lt g
        by (simp add: gate_mv_def c)
    qed
  qed
qed

lemma gate_fs_uint:
  assumes "10 < uint interval"
  shows "uint (gate_fs interval) = (if 120 \<le> uint interval then 120 else uint interval - 10)"
proof -
  have c: "(ucast GATE_MS_BASE :: u32) = 120" by (simp add: GATE_MS_BASE_def)
  show ?thesis
  proof (cases "120 \<le> uint interval")
    case True
    then have "\<not> (120 :: u32) > interval" by (simp add: word_less_def)
    then show ?thesis using True by (simp add: gate_fs_def c GATE_MS_BASE_def)
  next
    case False
    then have lt: "(120 :: u32) > interval" by (simp add: word_less_def)
    from assms have "uint (interval - 10) = uint interval - 10"
      by (simp add: uint_sub_if' word_le_def word_less_def)
    moreover have "uint (ucast (interval - 10) :: u16) = uint (interval - 10) mod 2 ^ 16"
      by (simp add: take_bit_eq_mod unsigned_ucast_eq)
    ultimately show ?thesis using False lt assms
      by (simp add: gate_fs_def c)
  qed
qed

lemma runSequencer_deadline:
  assumes wf: "wf_voices s" and v: "v < VOICE_COUNT"
    and st: "isPlaying s" "due now (nextStepAtMs s)"
    and trig: "pattern s ! v ! unat (stepIndex s)"
  shows "noteOffAtMs (runSequencer tr now s) ! v = now + ucast (gate_mv (stepIntervalMs s))
       \<and> noteActive (runSequencer tr now s) ! v
       \<and> noteOnMsg tr v \<in> set (sent (runSequencer tr now s))
       \<and> nextStepAtMs (runSequencer tr now s) = now + stepIntervalMs s"
proof -
  let ?s1 = "notesOff (noteOffMsg tr) (due now) [0..<VOICE_COUNT] s"
  let ?s2 = "notesOn (noteOnMsg tr) (now + ucast (gate_mv (stepIntervalMs s))) [0..<VOICE_COUNT] ?s1"
  from wf v have l1: "v < length (noteActive ?s1)" "v < length (noteOffAtMs ?s1)"
    by (simp_all add: wf_voices_def notesOff_frame)
  from v have mem: "v \<in> set [0..<VOICE_COUNT]" by simp
  from trig have t1: "pattern ?s1 ! v ! unat (stepIndex ?s1)" by (simp add: notesOff_frame)
  have r: "runSequencer tr now s
      = ?s2\<lparr>stepIndex := (stepIndex ?s2 + 1) AND 0x03, nextStepAtMs := now + stepIntervalMs ?s2\<rparr>"
    using st by (simp add: runSequencer_def Let_def notesOff_frame)
  have a: "noteOffAtMs ?s2 ! v = now + ucast (gate_mv (stepIntervalMs s))"
    using notesOn_deadline [OF l1(2)] mem t1 by simp
  have b: "noteActive ?s2 ! v"
    using notesOn_active [OF l1(1)] mem t1 by simp
  have c: "noteOnMsg tr v \<in> set (sent ?s2)"
    using mem t1 by (simp add: notesOn_sent)
  from a b c show ?thesis
    unfolding r by (simp add: notesOn_frame notesOff_frame)
qed

lemma sequencer_sw_deadline:
  assumes wf: "wf_voices s" and v: "v < VOICE_COUNT"
    and st: "stepDue_sw i s"
    and trig: "pattern s ! v ! unat (stepIndex s)"
  shows "noteOffAtMs (sequencer_sw i s) ! v = t_seq i + 60
       \<and> noteActive (sequencer_sw i s) ! v
       \<and> noteOnMsg_sw v \<in> set (sent (sequencer_sw i s))
       \<and> nextStepAtMs (sequencer_sw i s)
           = t_seq i + word_of_int (swing_delta (stepIndex s)
               (word_of_int (trunc_int (fl (60000 / bpm_of (tempoRaw i))))) (swingRatio_of (swingRaw i)))"
proof -
  let ?s0 = "s\<lparr>stepIntervalMs := word_of_int (trunc_int (fl (60000 / bpm_of (tempoRaw i))))\<rparr>"
  let ?s1 = "notesOff noteOffMsg_sw (due_sw (t_seq i)) [0..<VOICE_COUNT] ?s0"
  let ?s2 = "notesOn noteOnMsg_sw (t_seq i + ucast GATE_MS) [0..<VOICE_COUNT] ?s1"
  from wf v have l1: "v < length (noteActive ?s1)" "v < length (noteOffAtMs ?s1)"
    by (simp_all add: wf_voices_def notesOff_frame)
  from v have mem: "v \<in> set [0..<VOICE_COUNT]" by simp
  from trig have t1: "pattern ?s1 ! v ! unat (stepIndex ?s1)" by (simp add: notesOff_frame)
  have r: "sequencer_sw i s
      = ?s2\<lparr>nextStepAtMs := t_seq i + word_of_int (swing_delta (stepIndex ?s2) (stepIntervalMs ?s2)
                  (swingRatio_of (swingRaw i))),
             stepIndex := (stepIndex ?s2 + 1) AND 0x03\<rparr>"
    using st by (simp add: sequencer_sw_def stepDue_sw_def Let_def notesOff_frame)
  have a: "noteOffAtMs ?s2 ! v = t_seq i + 60"
    using notesOn_deadline [OF l1(2)] mem t1 by (simp add: GATE_MS_def)
  have b: "noteActive ?s2 ! v"
    using notesOn_active [OF l1(1)] mem t1 by simp
  have c: "noteOnMsg_sw v \<in> set (sent ?s2)"
    using mem t1 by (simp add: notesOn_sent)
  from a b c show ?thesis
    unfolding r by (simp add: notesOn_frame notesOff_frame)
qed

lemma runSequencer_fs_deadline:
  assumes "fs_isPlaying s" "due now (fs_nextStepAtMs s)" "stepEnabled s ! unat (fs_stepIndex s)"
  shows "fs_noteOffAtMs (runSequencer_fs now s) = now + ucast (gate_fs (fs_stepIntervalMs s))
       \<and> fs_noteActive (runSequencer_fs now s)
       \<and> sendNoteOn DRUM_NOTE NOTE_VELOCITY MIDI_CHANNEL_fs \<in> set (fs_sent (runSequencer_fs now s))
       \<and> fs_nextStepAtMs (runSequencer_fs now s) = now + fs_stepIntervalMs s"
  using assms by (simp add: runSequencer_fs_def Let_def)

lemma gate_mv_le: "uint (gate_mv interval) \<le> uint interval"
  by (simp add: gate_mv_uint)

lemma gate_mv_spec:
  assumes "uint interval < 120 \<or> 130 \<le> uint interval"
  shows "uint (gate_mv interval) = spec_gate (uint GATE_MS_BASE) (uint interval)"
  using assms by (auto simp: gate_mv_uint spec_gate_def GATE_MS_BASE_def Let_def)

section \<open>Deadlines in the fixed-tempo sketches\<close>

lemma due_wrap_safe:
  fixes d e :: u32
  assumes "uint d < 2 ^ 31" "uint e < 2 ^ 31"
  shows "due (t0 + e) (t0 + d) = (d \<le> e)"
proof -
  have "t0 + e - (t0 + d) = e - d" by simp
  moreover have "sint (e - d) = uint e - uint d"
  proof -
    have "sint (e - d) = signed_take_bit 31 (uint e - uint d)"
      by (simp add: sint_uint uint_word_ariths signed_take_bit_eq_take_bit_shift take_bit_eq_mod
          mod_simps)
    also have "\<dots> = uint e - uint d"
    proof (rule signed_take_bit_int_eq_self)
      have p: "(2 :: int) ^ 31 = 2147483648" by simp
      show "- (2 ^ 31) \<le> uint e - uint d"
        using assms uint_ge_0 [of d] uint_ge_0 [of e] unfolding p by linarith
      show "uint e - uint d < 2 ^ 31"
        using assms uint_ge_0 [of d] uint_ge_0 [of e] unfolding p by linarith
    qed
    finally show ?thesis .
  qed
  ultimately show ?thesis
    by (simp add: due_def word_sle_eq word_le_def)
qed

lemma not_due_fresh:
  fixes g :: u16
  assumes "g \<noteq> 0"
  shows "\<not> due now (now + ucast g)"
proof -
  have "now - (now + ucast g) = - (ucast g :: u32)" by simp
  have lt: "uint g < 2 ^ 16" using uint_bounded [of g] by simp
  have ge: "0 \<le> uint g" by simp
  have u: "uint (ucast g :: u32) = uint g"
    using lt ge by (simp add: unsigned_ucast_eq take_bit_eq_mod)
  have "uint g \<noteq> 0" using assms by (simp add: uint_0_iff)
  with ge have pos: "0 < uint g" by linarith
  have "sint (- (ucast g :: u32)) = signed_take_bit 31 (- uint (ucast g :: u32))"
    by (simp add: sint_uint uint_word_ariths signed_take_bit_eq_take_bit_shift take_bit_eq_mod
        mod_simps)
  also have "\<dots> = - uint g"
    unfolding u
  proof (rule signed_take_bit_int_eq_self)
    show "- (2 ^ 31) \<le> - uint g" using lt by simp
    show "- uint g < 2 ^ 31" using pos by simp
  qed
  finally have "sint (- (ucast g :: u32)) < 0" using pos by simp
  then show ?thesis
    by (simp add: due_def word_sle_eq)
qed

lemma gate_mv_nonzero: "interval \<noteq> 0 \<Longrightarrow> gate_mv interval \<noteq> 0"
proof -
  assume "interval \<noteq> 0"
  then have "uint interval \<noteq> 0" by (simp add: uint_0_iff)
  with uint_ge_0 [of interval] have "0 < uint interval" by linarith
  then have "0 < uint (gate_mv interval)" by (simp add: gate_mv_uint)
  then show ?thesis by auto
qed

lemma runSequencer_retires:
  assumes wf: "wf_voices s" and v: "v < VOICE_COUNT" and i: "stepIntervalMs s \<noteq> 0"
    and a: "noteActive (runSequencer tr now s) ! v"
  shows "\<not> due now (noteOffAtMs (runSequencer tr now s) ! v)"
proof -
  let ?s1 = "notesOff (noteOffMsg tr) (due now) [0..<VOICE_COUNT] s"
  let ?dl = "now + ucast (gate_mv (stepIntervalMs s))"
  let ?s2 = "notesOn (noteOnMsg tr) ?dl [0..<VOICE_COUNT] ?s1"
  from wf v have l0: "v < length (noteActive s)" by (simp add: wf_voices_def)
  from wf v have l1: "v < length (noteActive ?s1)" "v < length (noteOffAtMs ?s1)"
    by (simp_all add: wf_voices_def notesOff_frame)
  from v have mem: "v \<in> set [0..<VOICE_COUNT]" by simp
  have a1: "noteActive ?s1 ! v = (noteActive s ! v \<and> \<not> due now (noteOffAtMs s ! v))"
    using notesOff_active [OF l0, of "noteOffMsg tr" "due now" "[0..<VOICE_COUNT]"] mem by simp
  have fresh: "\<not> due now ?dl" by (rule not_due_fresh) (rule gate_mv_nonzero [OF i])
  show ?thesis
  proof (cases "isPlaying s \<and> due now (nextStepAtMs s)")
    case False
    then have "runSequencer tr now s = ?s1"
      by (auto simp: runSequencer_def Let_def notesOff_frame)
    with a a1 show ?thesis by (simp add: notesOff_frame)
  next
    case True
    then have r: "runSequencer tr now s
        = ?s2\<lparr>stepIndex := (stepIndex ?s2 + 1) AND 0x03, nextStepAtMs := now + stepIntervalMs ?s2\<rparr>"
      by (simp add: runSequencer_def Let_def notesOff_frame)
    from a have a2: "noteActive ?s2 ! v" unfolding r by simp
    have d2: "noteOffAtMs ?s2 ! v
        = (if pattern ?s1 ! v ! unat (stepIndex ?s1) then ?dl else noteOffAtMs ?s1 ! v)"
      using notesOn_deadline [OF l1(2), of "noteOnMsg tr" ?dl "[0..<VOICE_COUNT]"] mem by simp
    have act2: "noteActive ?s2 ! v = (noteActive ?s1 ! v \<or> pattern ?s1 ! v ! unat (stepIndex ?s1))"
      using notesOn_active [OF l1(1), of "noteOnMsg tr" ?dl "[0..<VOICE_COUNT]"] mem by simp
    show ?thesis
    proof (cases "pattern ?s1 ! v ! unat (stepIndex ?s1)")
      case True
      with d2 fresh show ?thesis unfolding r by simp
    next
      case False
      with a2 act2 a1 d2 show ?thesis unfolding r by (simp add: notesOff_frame)
    qed
  qed
qed

section \<open>The swing sketch at zero tempo and at the wrap of the counter\<close>

lemma stepButtons_idle:
  assumes "stepBtn s = [idleBtn 2, idleBtn 3, idleBtn 4, idleBtn 5]"
    and "\<And>p w t. poll (idleBtn p) w t True = (False, idleBtn p)"
  shows "stepButtons poll (in_steps (idle_inputs t)) [0..<4] s = s"
proof -
  have u: "[0..<4] = [0, 1, 2, 3]" by (simp add: upt_rec)
  show ?thesis
    unfolding u using assms(1)
    by (simp add: idle_inputs_def assms(2))
qed

lemma selectVoice_sw_idle:
  assumes "instBtn s = idleBtn 16"
  shows "selectVoice_sw (idle_inputs t) s = s"
  using assms by (simp add: selectVoice_sw_def idle_inputs_def pollFalling_idle)

lemma playToggle_sw_idle:
  assumes "playBtn s = idleBtn 10"
  shows "playToggle_sw (idle_inputs t) s = s"
  using assms by (simp add: playToggle_sw_def idle_inputs_def pollFalling_idle)

lemma loop_sw_idle:
  assumes "stepBtn s = [idleBtn 2, idleBtn 3, idleBtn 4, idleBtn 5]"
    and "instBtn s = idleBtn 16" and "playBtn s = idleBtn 10"
  shows "loop_sw (idle_inputs t) s = sequencer_sw (idle_inputs t) s"
  using assms
  by (simp add: loop_sw_def selectVoice_sw_idle stepButtons_idle pollFalling_idle playToggle_sw_idle)

lemma loop_sw_idle_upd:
  assumes "stepBtn s = [idleBtn 2, idleBtn 3, idleBtn 4, idleBtn 5]"
    and "instBtn s = idleBtn 16" and "playBtn s = idleBtn 10"
  shows "loop_sw ((idle_inputs t)\<lparr>tempoRaw := tr\<rparr>) s = sequencer_sw ((idle_inputs t)\<lparr>tempoRaw := tr\<rparr>) s"
proof -
  have a: "selectVoice_sw ((idle_inputs t)\<lparr>tempoRaw := tr\<rparr>) s = s"
    using assms(2) by (simp add: selectVoice_sw_def idle_inputs_def pollFalling_idle)
  have b: "in_steps ((idle_inputs t)\<lparr>tempoRaw := tr\<rparr>) = in_steps (idle_inputs t)" by simp
  have c: "playToggle_sw ((idle_inputs t)\<lparr>tempoRaw := tr\<rparr>) s = s"
    using assms(3) by (simp add: playToggle_sw_def idle_inputs_def pollFalling_idle)
  show ?thesis
    unfolding loop_sw_def a b using assms(1) c
    by (simp add: stepButtons_idle pollFalling_idle)
qed

lemma sequencer_sw_btns:
  "stepBtn (sequencer_sw i s) = stepBtn s
 \<and> instBtn (sequencer_sw i s) = instBtn s
 \<and> playBtn (sequencer_sw i s) = playBtn s"
  by (simp add: sequencer_sw_def Let_def notesOff_frame notesOn_frame)

lemma idle_pots:
  "bpm_of 1023 = 240"
  "fl 250 = 250"
  "trunc_int 250 = 250"
  "swingRatio_of 512 = 0"
  "swing_offset w 0 = 0"
  by (simp_all add: bpm_of_1023 fl_250 swingRatio_of_512 trunc_int_def swing_offset_def fl_0)

lemma voices: "[0..<VOICE_COUNT] = [0, 1, 2, 3]"
  by (simp add: VOICE_COUNT_def upt_rec)

text \<open>
  Claim C3 (the expiry check runs on every pass) fails in the swing sketch: its \<open>loop()\<close>
  returns at \<open>if (bpm <= 0.5f) return;\<close> before the note-off loop. With voices 0 and 2
  sounding and their deadline 120 long past at time 1000, a pass with the tempo pot at 0
  sends nothing and leaves both sounding; the same pass with the pot at 1023 sends both
  Note Offs. In the fixed-tempo sketches no voice is left sounding past its deadline by
  any pass (\<open>runSequencer_retires\<close>).
\<close>

theorem swing_zero_tempo_keeps_notes:
  "due_sw 1000 120
 \<and> sounding (demo_mv (idleBtn 10) 1472 120) = [0, 2]
 \<and> sent (loop_sw ((idle_inputs 1000)\<lparr>tempoRaw := 0\<rparr>) (demo_mv (idleBtn 10) 1472 120)) = []
 \<and> sounding (loop_sw ((idle_inputs 1000)\<lparr>tempoRaw := 0\<rparr>) (demo_mv (idleBtn 10) 1472 120)) = [0, 2]
 \<and> sent (loop_sw (idle_inputs 1000) (demo_mv (idleBtn 10) 1472 120))
     = [noteOffMsg_sw 0, noteOffMsg_sw 2]
 \<and> sounding (loop_sw (idle_inputs 1000) (demo_mv (idleBtn 10) 1472 120)) = []"
proof -
  let ?s = "demo_mv (idleBtn 10) 1472 120"
  have b: "stepBtn ?s = [idleBtn 2, idleBtn 3, idleBtn 4, idleBtn 5]" "instBtn ?s = idleBtn 16"
    "playBtn ?s = idleBtn 10"
    by (simp_all add: demo_mv_def)
  have z: "sequencer_sw ((idle_inputs 1000)\<lparr>tempoRaw := 0\<rparr>) ?s = ?s"
    by (simp add: sequencer_sw_def bpm_of_0)
  have snd: "sounding ?s = [0, 2]"
    by (simp add: sounding_def voices demo_mv_def)
  have e: "sent ?s = []" by (simp add: demo_mv_def)
  have n: "sequencer_sw (idle_inputs 1000) ?s
      = ?s\<lparr>stepIntervalMs := 250, noteActive := [False, False, False, False],
            sent := [noteOffMsg_sw 0, noteOffMsg_sw 2]\<rparr>"
    by (simp add: sequencer_sw_def idle_pots Let_def voices due_sw_def demo_mv_def idle_inputs_def)
  show ?thesis
    unfolding loop_sw_idle_upd [OF b] loop_sw_idle [OF b] z n
    by (simp add: snd e due_sw_def) (simp add: sounding_def voices)
qed

text \<open>
  Claim C5 (deadlines are tested by signed difference) fails in the swing sketch, which
  tests \<open>now >= deadline\<close> on the unsigned values. With a note-off deadline 28 and a
  next-step deadline 218, both armed just before the counter wraps, a pass at time
  \<open>0xFFFFFFE1\<close> finds both due although neither signed difference is non-negative: it
  sends the Note Offs and takes the next step at once. The fixed-tempo sketches use \<open>due\<close>,
  which is exact across a wrap (\<open>due_wrap_safe\<close>).
\<close>

theorem swing_plain_compare_wraps:
  "due_sw 4294967265 28 \<and> \<not> due 4294967265 28
 \<and> due_sw 4294967265 218 \<and> \<not> due 4294967265 218
 \<and> sent (loop_sw (idle_inputs 4294967265) (demo_mv (idleBtn 10) 218 28))
     = [noteOffMsg_sw 0, noteOffMsg_sw 2, noteOnMsg_sw 0]
 \<and> stepIndex (loop_sw (idle_inputs 4294967265) (demo_mv (idleBtn 10) 218 28)) = 2"
proof -
  let ?s = "demo_mv (idleBtn 10) 218 28"
  have b: "stepBtn ?s = [idleBtn 2, idleBtn 3, idleBtn 4, idleBtn 5]" "instBtn ?s = idleBtn 16"
    "playBtn ?s = idleBtn 10"
    by (simp_all add: demo_mv_def)
  have d: "due_sw 4294967265 28" "\<not> due 4294967265 28" "due_sw 4294967265 218" "\<not> due 4294967265 218"
    by (simp_all add: due_sw_def due_def word_sle_eq)
  have n: "sequencer_sw (idle_inputs 4294967265) ?s
      = ?s\<lparr>stepIntervalMs := 250, stepIndex := 2, nextStepAtMs := 219,
            noteActive := [True, False, False, False], noteOffAtMs := [29, 0, 28, 0],
            sent := [noteOffMsg_sw 0, noteOffMsg_sw 2, noteOnMsg_sw 0]\<rparr>"
    by (simp add: sequencer_sw_def idle_pots Let_def voices due_sw_def demo_mv_def idle_inputs_def
        swing_delta_def GATE_MS_def)
  show ?thesis
    unfolding loop_sw_idle [OF b] n using d by simp
qed

text \<open>
  Claim C2 (one Note Off for every Note On) fails in the swing sketch when the counter
  wraps. From step 0 with no voice sounding and the step due at \<open>2^32 - 80\<close>, passes at
  \<open>2^32 - 80\<close>, \<open>2^32 - 79\<close> and \<open>2^32 - 19\<close> send Note On for voice 0 twice (steps 0 and 1)
  before its single Note Off: the next-step deadline has wrapped to 170 and tests as due
  one millisecond later, while the voice's own deadline has not wrapped and does not.
\<close>

theorem swing_wrap_double_note_on:
  "sent (run loop_sw
      ((demo_mv (idleBtn 10) 4294967216 0)\<lparr>stepIndex := 0, noteActive := [False, False, False, False]\<rparr>)
      [idle_inputs 4294967216, idle_inputs 4294967217, idle_inputs 4294967277])
     = [noteOnMsg_sw 0, noteOnMsg_sw 2, noteOnMsg_sw 0, noteOffMsg_sw 0, noteOffMsg_sw 2]
 \<and> noteOnMsg_sw 0 = UsbPacket 0x09 0x90 36 110
 \<and> noteOnMsg_sw 2 = UsbPacket 0x09 0x90 42 110
 \<and> noteOffMsg_sw 0 = UsbPacket 0x08 0x80 36 0
 \<and> noteOffMsg_sw 2 = UsbPacket 0x08 0x80 42 0"
proof -
  let ?s0 = "(demo_mv (idleBtn 10) 4294967216 0)\<lparr>stepIndex := 0, noteActive := [False, False, False, False]\<rparr>"
  let ?s1 = "?s0\<lparr>stepIntervalMs := 250, stepIndex := 1, nextStepAtMs := 170,
            noteActive := [True, False, True, False], noteOffAtMs := [4294967276, 0, 4294967276, 0],
            sent := [noteOnMsg_sw 0, noteOnMsg_sw 2]\<rparr>"
  let ?s2 = "?s0\<lparr>stepIntervalMs := 250, stepIndex := 2, nextStepAtMs := 171,
            noteActive := [True, False, True, False], noteOffAtMs := [4294967277, 0, 4294967276, 0],
            sent := [noteOnMsg_sw 0, noteOnMsg_sw 2, noteOnMsg_sw 0]\<rparr>"
  let ?s3 = "?s0\<lparr>stepIntervalMs := 250, stepIndex := 3, nextStepAtMs := 231,
            noteActive := [False, False, False, False], noteOffAtMs := [4294967277, 0, 4294967276, 0],
            sent := [noteOnMsg_sw 0, noteOnMsg_sw 2, noteOnMsg_sw 0, noteOffMsg_sw 0, noteOffMsg_sw 2]\<rparr>"
  have l0: "loop_sw (idle_inputs t) ?s0 = sequencer_sw (idle_inputs t) ?s0" for t
    by (rule loop_sw_idle) (simp_all add: demo_mv_def)
  have l1: "loop_sw (idle_inputs t) ?s1 = sequencer_sw (idle_inputs t) ?s1" for t
    by (rule loop_sw_idle) (simp_all add: demo_mv_def)
  have l2: "loop_sw (idle_inputs t) ?s2 = sequencer_sw (idle_inputs t) ?s2" for t
    by (rule loop_sw_idle) (simp_all add: demo_mv_def)
  have p1: "loop_sw (idle_inputs 4294967216) ?s0 = ?s1"
    unfolding l0
    by (simp add: sequencer_sw_def idle_pots Let_def voices due_sw_def demo_mv_def idle_inputs_def
        swing_delta_def GATE_MS_def)
  have p2: "loop_sw (idle_inputs 4294967217) ?s1 = ?s2"
    unfolding l1
    by (simp add: sequencer_sw_def idle_pots Let_def voices due_sw_def demo_mv_def idle_inputs_def
        swing_delta_def GATE_MS_def)
  have p3: "loop_sw (idle_inputs 4294967277) ?s2 = ?s3"
    unfolding l2
    by (simp add: sequencer_sw_def idle_pots Let_def voices due_sw_def demo_mv_def idle_inputs_def
        swing_delta_def GATE_MS_def)
  have m: "noteOnMsg_sw 0 = UsbPacket 0x09 0x90 36 110" "noteOnMsg_sw 2 = UsbPacket 0x09 0x90 42 110"
    "noteOffMsg_sw 0 = UsbPacket 0x08 0x80 36 0" "noteOffMsg_sw 2 = UsbPacket 0x08 0x80 42 0"
    by (simp_all add: noteOnMsg_sw_def noteOffMsg_sw_def sendNoteOn_sw_def sendNoteOff_sw_def
        VOICE_NOTES_sw_def MIDI_CHANNEL_sw_def NOTE_VELOCITY_def)
  have "run loop_sw ?s0 [idle_inputs 4294967216, idle_inputs 4294967217, idle_inputs 4294967277] = ?s3"
    by (simp only: run.simps p1 p2 p3)
  then have "sent (run loop_sw ?s0 [idle_inputs 4294967216, idle_inputs 4294967217, idle_inputs 4294967277])
      = [noteOnMsg_sw 0, noteOnMsg_sw 2, noteOnMsg_sw 0, noteOffMsg_sw 0, noteOffMsg_sw 2]"
    by simp
  with m show ?thesis by (intro conjI)
qed

section \<open>The states \<open>setup()\<close> leaves\<close>

lemma fixedInterval_472: "fixedInterval = 472"
  by (simp add: fixedInterval_def FIXED_BPM_def)

lemma setup_fs_facts:
  "\<not> fs_isPlaying (setup_fs i) \<and> \<not> fs_noteActive (setup_fs i) \<and> fs_stepIndex (setup_fs i) = 0
 \<and> fs_stepIntervalMs (setup_fs i) = 472 \<and> fs_sent (setup_fs i) = []"
  by (simp add: setup_fs_def fixedInterval_472)

lemma setup_mv_facts:
  "wf_voices (setup_mv i) \<and> sounding (setup_mv i) = [] \<and> \<not> isPlaying (setup_mv i)
 \<and> stepIndex (setup_mv i) = 0 \<and> stepIntervalMs (setup_mv i) = 472 \<and> sent (setup_mv i) = []"
  by (simp add: setup_mv_def fixedInterval_472 wf_voices_def sounding_def filter_empty_conv)

lemma setup_sw_facts:
  "wf_voices setup_sw \<and> sounding setup_sw = [] \<and> \<not> isPlaying setup_sw
 \<and> stepIndex setup_sw = 0 \<and> sent setup_sw = []"
  by (simp add: setup_sw_def wf_voices_def sounding_def filter_empty_conv)

section \<open>Pairing in the fixed-tempo multi-voice sketches\<close>

lemma sle_small:
  fixes x d :: u32
  assumes "uint x + uint d < 2 ^ 31"
  shows "0 \<le>s x + d"
proof -
  have p: "(2 :: int) ^ 31 = 2147483648" by simp
  have nn: "0 \<le> uint x" "0 \<le> uint d" by simp_all
  have lt: "uint x + uint d < 2 ^ LENGTH(32)" using assms unfolding p by simp
  have u: "uint (x + d) = uint x + uint d"
    using lt by (simp only: uint_add_lem)
  have "sint (x + d) = signed_take_bit 31 (uint (x + d))"
    by (simp add: sint_uint)
  also have "\<dots> = uint x + uint d"
    unfolding u
  proof (rule signed_take_bit_int_eq_self)
    show "- (2 ^ 31) \<le> uint x + uint d" using nn unfolding p by linarith
    show "uint x + uint d < 2 ^ 31" by (rule assms)
  qed
  finally have "0 \<le> sint (x + d)" using nn by linarith
  then show ?thesis by (simp add: word_sle_eq)
qed

lemma due_sum:
  fixes now a b :: u32
  assumes "uint (now - a) + uint (a - b) < 2 ^ 31"
  shows "due now b"
proof -
  have e: "now - b = (now - a) + (a - b)" by simp
  show ?thesis unfolding due_def e by (rule sle_small [OF assms])
qed

lemma paired_iff:
  "paired s \<longleftrightarrow>
     wf_voices s \<and> (isPlaying s \<or> sounding s = [])
     \<and> (\<forall>v < VOICE_COUNT. noteActive s ! v \<longrightarrow>
            nextStepAtMs s - noteOffAtMs s ! v \<le> stepIntervalMs s)"
  by (auto simp: paired_def list_all_iff)

lemma no_retrigger:
  assumes inv: "paired s" and t: "timely now s"
  shows "sounding (notesOff msg (due now) [0..<VOICE_COUNT] s) = []"
proof -
  {
    fix v assume v: "v < VOICE_COUNT" and a: "noteActive s ! v"
    from inv v a have "nextStepAtMs s - noteOffAtMs s ! v \<le> stepIntervalMs s"
      by (simp add: paired_iff)
    then have "uint (nextStepAtMs s - noteOffAtMs s ! v) \<le> uint (stepIntervalMs s)"
      by (simp add: word_le_def)
    with t have "uint (now - nextStepAtMs s) + uint (nextStepAtMs s - noteOffAtMs s ! v) < 2 ^ 31"
      unfolding timely_def by linarith
    then have "due now (noteOffAtMs s ! v)" by (rule due_sum)
  }
  then have d: "\<forall>v < VOICE_COUNT. noteActive s ! v \<longrightarrow> due now (noteOffAtMs s ! v)" by blast
  from inv have len: "length (noteActive s) = VOICE_COUNT" by (simp add: paired_iff wf_voices_def)
  show ?thesis
    unfolding sounding_Nil_iff using d len by (auto simp: notesOff_active)
qed

lemma gate_gap:
  "now + interval - (now + ucast (gate_mv interval)) \<le> interval"
proof -
  have e: "now + interval - (now + ucast (gate_mv interval)) = interval - ucast (gate_mv interval)"
    by simp
  have lt: "uint (gate_mv interval) < 2 ^ 16" using uint_bounded [of "gate_mv interval"] by simp
  have u: "uint (ucast (gate_mv interval) :: u32) = uint (gate_mv interval)"
    using lt by (simp add: unsigned_ucast_eq take_bit_eq_mod)
  have le: "uint (ucast (gate_mv interval) :: u32) \<le> uint interval"
    unfolding u by (rule gate_mv_le)
  then have "uint (interval - ucast (gate_mv interval)) = uint interval - uint (gate_mv interval)"
    by (simp add: uint_sub_if' u)
  then show ?thesis
    unfolding e word_le_def by simp
qed

lemma runSequencer_paired:
  assumes inv: "paired s" and t: "isPlaying s \<and> due now (nextStepAtMs s) \<longrightarrow> timely now s"
  shows "paired (runSequencer tr now s)"
proof -
  let ?s1 = "notesOff (noteOffMsg tr) (due now) [0..<VOICE_COUNT] s"
  let ?dl = "now + ucast (gate_mv (stepIntervalMs s))"
  let ?s2 = "notesOn (noteOnMsg tr) ?dl [0..<VOICE_COUNT] ?s1"
  from inv have wf: "wf_voices s" and len: "length (noteActive s) = VOICE_COUNT"
    "length (noteOffAtMs s) = VOICE_COUNT"
    by (simp_all add: paired_iff wf_voices_def)
  have act1: "\<And>v. v < VOICE_COUNT \<Longrightarrow> noteActive ?s1 ! v \<Longrightarrow> noteActive s ! v"
    using len by (simp add: notesOff_active)
  show ?thesis
  proof (cases "isPlaying s \<and> due now (nextStepAtMs s)")
    case False
    then have r: "runSequencer tr now s = ?s1"
      by (auto simp: runSequencer_def Let_def notesOff_frame)
    have "sounding s = [] \<Longrightarrow> sounding ?s1 = []"
      unfolding sounding_Nil_iff using act1 by auto
    with inv act1 show ?thesis
      unfolding r paired_iff wf_voices_def by (auto simp: notesOff_frame)
  next
    case True
    then have r: "runSequencer tr now s
        = ?s2\<lparr>stepIndex := (stepIndex ?s2 + 1) AND 0x03, nextStepAtMs := now + stepIntervalMs ?s2\<rparr>"
      by (simp add: runSequencer_def Let_def notesOff_frame)
    from True t have "timely now s" by simp
    from no_retrigger [OF inv this] have q: "sounding ?s1 = []" .
    have l1: "length (noteActive ?s1) = VOICE_COUNT" "length (noteOffAtMs ?s1) = VOICE_COUNT"
      using len by (simp_all add: notesOff_frame)
    {
      fix v assume v: "v < VOICE_COUNT" and a: "noteActive ?s2 ! v"
      from q v have "\<not> noteActive ?s1 ! v" unfolding sounding_Nil_iff by simp
      with a v l1 have "pattern ?s1 ! v ! unat (stepIndex ?s1)"
        by (simp add: notesOn_active)
      with v l1 have "noteOffAtMs ?s2 ! v = ?dl"
        by (simp add: notesOn_deadline)
      then have "now + stepIntervalMs s - noteOffAtMs ?s2 ! v \<le> stepIntervalMs s"
        by (simp only: gate_gap)
    }
    with True l1 show ?thesis
      unfolding r paired_iff wf_voices_def by (simp add: notesOn_frame notesOff_frame)
  qed
qed

lemma handlePlayButton_paired:
  assumes inv: "paired s"
  shows "paired (handlePlayButton tr i s)"
proof -
  let ?e = "fst (pollEdgeFalling (playBtn s) DEBOUNCE_PLAY_MS (fst (in_play i)) (snd (in_play i)))"
  let ?b = "snd (pollEdgeFalling (playBtn s) DEBOUNCE_PLAY_MS (fst (in_play i)) (snd (in_play i)))"
  from inv have len: "length (noteActive s) = VOICE_COUNT" by (simp add: paired_iff wf_voices_def)
  show ?thesis
  proof (cases ?e)
    case False
    then have "handlePlayButton tr i s = s\<lparr>playBtn := ?b\<rparr>" by (simp add: handlePlayButton_cases)
    with inv show ?thesis by (simp add: paired_iff wf_voices_def sounding_def)
  next
    case True
    show ?thesis
    proof (cases "isPlaying s")
      case p: True
      let ?s1 = "s\<lparr>playBtn := ?b, isPlaying := False\<rparr>"
      from True p have h: "handlePlayButton tr i s
          = notesOff (noteOffMsg tr) (\<lambda>d. True) [0..<VOICE_COUNT] ?s1"
        by (simp add: handlePlayButton_cases)
      from len have "length (noteActive ?s1) = VOICE_COUNT" by simp
      from flush_all(2) [OF this, of "noteOffMsg tr"]
      have q: "sounding (handlePlayButton tr i s) = []" unfolding h .
      then have "\<forall>v < VOICE_COUNT. \<not> noteActive (handlePlayButton tr i s) ! v"
        unfolding sounding_Nil_iff by simp
      with q inv show ?thesis
        unfolding paired_iff wf_voices_def by (simp add: h notesOff_frame)
    next
      case np: False
      with inv have q: "sounding s = []" by (simp add: paired_iff)
      then have "\<forall>v < VOICE_COUNT. \<not> noteActive s ! v"
        unfolding sounding_Nil_iff by simp
      moreover from True np have "handlePlayButton tr i s
          = s\<lparr>playBtn := ?b, isPlaying := True, nextStepAtMs := t_play i + stepIntervalMs s\<rparr>"
        by (simp add: handlePlayButton_cases)
      ultimately show ?thesis
        using inv by (simp add: paired_iff wf_voices_def)
    qed
  qed
qed

lemma pre_mv_paired:
  assumes "paired s"
  shows "paired (handleStepButtons i (handleInstrumentButton i s))"
  using assms by (simp add: paired_iff wf_voices_def sounding_def pre_mv_frame)

lemma loop_mv_paired:
  assumes inv: "paired s"
    and t: "stepDue_mv tr i s \<longrightarrow>
            timely (t_seq i) (handlePlayButton tr i (handleStepButtons i (handleInstrumentButton i s)))"
  shows "paired (loop_mv tr i s)"
  unfolding loop_mv_def
  using t unfolding stepDue_mv_def Let_def
  by (intro runSequencer_paired handlePlayButton_paired pre_mv_paired inv)

text \<open>
  In the fixed-tempo multi-voice sketches, from a \<open>paired\<close> state and with timely passes,
  a pass of \<open>runSequencer\<close> sends Note Offs only for sounding voices, each at most once,
  and then Note Ons, each voice at most once; when it sends any Note On, every voice that
  was sounding has had its Note Off first. \<open>loop_mv_paired\<close> keeps the state \<open>paired\<close>.
\<close>

lemma runSequencer_pairing:
  assumes inv: "paired s" and t: "isPlaying s \<and> due now (nextStepAtMs s) \<longrightarrow> timely now s"
  shows "\<exists>offs ons. sent (runSequencer tr now s)
            = sent s @ map (noteOffMsg tr) offs @ map (noteOnMsg tr) ons
        \<and> set offs \<subseteq> set (sounding s) \<and> distinct offs
        \<and> distinct ons \<and> set ons \<subseteq> {..<VOICE_COUNT}
        \<and> (ons \<noteq> [] \<longrightarrow> set offs = set (sounding s))"
proof -
  let ?offs = "filter (\<lambda>v. noteActive s ! v \<and> due now (noteOffAtMs s ! v)) [0..<VOICE_COUNT]"
  let ?s1 = "notesOff (noteOffMsg tr) (due now) [0..<VOICE_COUNT] s"
  let ?ons = "filter (\<lambda>v. pattern ?s1 ! v ! unat (stepIndex ?s1)) [0..<VOICE_COUNT]"
  have s1: "sent ?s1 = sent s @ map (noteOffMsg tr) ?offs"
    by (simp add: notesOff_sent)
  have sub: "set ?offs \<subseteq> set (sounding s)" unfolding sounding_def by auto
  have d1: "distinct ?offs" and d2: "distinct ?ons" by simp_all
  have r2: "set ?ons \<subseteq> {..<VOICE_COUNT}" by auto
  from inv have len: "length (noteActive s) = VOICE_COUNT" by (simp add: paired_iff wf_voices_def)
  show ?thesis
  proof (cases "isPlaying s \<and> due now (nextStepAtMs s)")
    case False
    then have "runSequencer tr now s = ?s1"
      by (auto simp: runSequencer_def Let_def notesOff_frame)
    then have e: "sent (runSequencer tr now s)
        = sent s @ map (noteOffMsg tr) ?offs @ map (noteOnMsg tr) []"
      using s1 by simp
    have "sent (runSequencer tr now s) = sent s @ map (noteOffMsg tr) ?offs @ map (noteOnMsg tr) []
        \<and> set ?offs \<subseteq> set (sounding s) \<and> distinct ?offs
        \<and> distinct ([] :: nat list) \<and> set ([] :: nat list) \<subseteq> {..<VOICE_COUNT}
        \<and> (([] :: nat list) \<noteq> [] \<longrightarrow> set ?offs = set (sounding s))"
      using e sub d1 by simp
    then show ?thesis by blast
  next
    case True
    with t have tm: "timely now s" by simp
    from True have "sent (runSequencer tr now s) = sent ?s1 @ map (noteOnMsg tr) ?ons"
      by (simp add: runSequencer_def Let_def notesOff_frame notesOn_frame notesOn_sent)
    then have e: "sent (runSequencer tr now s)
        = sent s @ map (noteOffMsg tr) ?offs @ map (noteOnMsg tr) ?ons"
      unfolding s1 by simp
    from no_retrigger [OF inv tm, of "noteOffMsg tr"]
    have "\<forall>v \<in> set [0..<VOICE_COUNT]. \<not> noteActive ?s1 ! v"
      unfolding sounding_Nil_iff .
    then have "\<forall>v < VOICE_COUNT. noteActive s ! v \<longrightarrow> due now (noteOffAtMs s ! v)"
      using len by (simp add: notesOff_active)
    then have "set (sounding s) \<subseteq> set ?offs" unfolding sounding_def by auto
    with sub have eq: "set ?offs = set (sounding s)" by (rule subset_antisym)
    have "sent (runSequencer tr now s) = sent s @ map (noteOffMsg tr) ?offs @ map (noteOnMsg tr) ?ons
        \<and> set ?offs \<subseteq> set (sounding s) \<and> distinct ?offs
        \<and> distinct ?ons \<and> set ?ons \<subseteq> {..<VOICE_COUNT}
        \<and> (?ons \<noteq> [] \<longrightarrow> set ?offs = set (sounding s))"
      using e sub d1 d2 r2 eq by (intro conjI impI)
    then show ?thesis by blast
  qed
qed

section \<open>The swing intervals\<close>

lemma sequencer_sw_arm:
  assumes "stepDue_sw i s"
  shows "stepIntervalMs (sequencer_sw i s) = word_of_int (trunc_int (fl (60000 / bpm_of (tempoRaw i))))"
    and "nextStepAtMs (sequencer_sw i s)
           = t_seq i + word_of_int (swing_delta (stepIndex s) (stepIntervalMs (sequencer_sw i s))
                         (swingRatio_of (swingRaw i)))"
    and "isPlaying (sequencer_sw i s)"
    and "stepIndex (sequencer_sw i s) = (stepIndex s + 1) AND 0x03"
  using assms
  by (simp_all add: sequencer_sw_def stepDue_sw_def Let_def notesOff_frame notesOn_frame)

lemma toggled_stepIndex:
  "stepIndex (playToggle_sw i (stepButtons pollFalling rd is (selectVoice_sw i s)))
     = (if playEdge_sw i s then 0 else stepIndex s)"
  by (simp add: playToggle_sw_cases pre_sw_frame notesOff_frame playEdge_sw_def)

lemma loop_sw_arm:
  assumes "stepDue_loop_sw i s"
  shows "stepIntervalMs (loop_sw i s) = word_of_int (trunc_int (fl (60000 / bpm_of (tempoRaw i))))"
    and "nextStepAtMs (loop_sw i s)
           = t_seq i + word_of_int (swing_delta (if playEdge_sw i s then 0 else stepIndex s)
                         (stepIntervalMs (loop_sw i s)) (swingRatio_of (swingRaw i)))"
    and "isPlaying (loop_sw i s)"
    and "\<not> bpm_of (tempoRaw i) \<le> 1 / 2"
    and "stepIndex (loop_sw i s) = ((if playEdge_sw i s then 0 else stepIndex s) + 1) AND 0x03"
proof -
  let ?s1 = "playToggle_sw i (stepButtons pollFalling (in_steps i) [0..<4] (selectVoice_sw i s))"
  from assms have d: "stepDue_sw i ?s1" by (simp add: stepDue_loop_sw_def)
  show "stepIntervalMs (loop_sw i s) = word_of_int (trunc_int (fl (60000 / bpm_of (tempoRaw i))))"
    unfolding loop_sw_def by (rule sequencer_sw_arm(1) [OF d])
  show "nextStepAtMs (loop_sw i s)
           = t_seq i + word_of_int (swing_delta (if playEdge_sw i s then 0 else stepIndex s)
                         (stepIntervalMs (loop_sw i s)) (swingRatio_of (swingRaw i)))"
    unfolding loop_sw_def sequencer_sw_arm(2) [OF d] toggled_stepIndex ..
  show "isPlaying (loop_sw i s)"
    unfolding loop_sw_def by (rule sequencer_sw_arm(3) [OF d])
  from d show "\<not> bpm_of (tempoRaw i) \<le> 1 / 2" by (simp add: stepDue_sw_def)
  show "stepIndex (loop_sw i s) = ((if playEdge_sw i s then 0 else stepIndex s) + 1) AND 0x03"
    unfolding loop_sw_def sequencer_sw_arm(4) [OF d] toggled_stepIndex ..
qed

lemma interval_word:
  assumes "0 \<le> raw" "raw \<le> 1023" "\<not> bpm_of raw \<le> 1 / 2"
  shows "250 \<le> sint (word_of_int (trunc_int (fl (60000 / bpm_of raw))) :: u32)"
    and "sint (word_of_int (trunc_int (fl (60000 / bpm_of raw))) :: u32) \<le> 120000"
    and "uint (word_of_int (trunc_int (fl (60000 / bpm_of raw))) :: u32)
           = sint (word_of_int (trunc_int (fl (60000 / bpm_of raw))) :: u32)"
proof -
  define k where "k = trunc_int (fl (60000 / bpm_of raw))"
  have k: "250 \<le> k" "k \<le> 120000"
    unfolding k_def using interval_range [OF assms] by simp_all
  have s: "sint (word_of_int k :: u32) = k"
    unfolding sint_sbintrunc' using k by (intro signed_take_bit_int_eq_self) simp_all
  have u: "uint (word_of_int k :: u32) = k"
    unfolding uint_word_of_int_eq using k by (intro take_bit_int_eq_self) simp_all
  show "250 \<le> sint (word_of_int (trunc_int (fl (60000 / bpm_of raw))) :: u32)"
    and "sint (word_of_int (trunc_int (fl (60000 / bpm_of raw))) :: u32) \<le> 120000"
    and "uint (word_of_int (trunc_int (fl (60000 / bpm_of raw))) :: u32)
           = sint (word_of_int (trunc_int (fl (60000 / bpm_of raw))) :: u32)"
    unfolding k_def [symmetric] s u using k by simp_all
qed

lemma swing_delta_free:
  assumes "0 < sint interval" and "\<bar>ratio\<bar> \<le> MAX_SWING_RATIO"
  shows "swing_delta idx interval ratio
           = (if even (unat idx) then sint interval - swing_offset interval ratio
              else sint interval + swing_offset interval ratio)"
  using swing_offset_small [OF assms]
  by (auto simp: swing_delta_def Let_def even_iff_mod_2_eq_zero)

lemma swing_delta_floor: "1 \<le> swing_delta idx interval ratio"
  by (simp add: swing_delta_def Let_def)

lemma next_parity: "even (unat ((idx + 1) AND (0x03 :: u8))) = odd (unat idx)"
  by (simp only: step_next_unat) presburger

lemma swing_delta_pair:
  assumes "0 < sint interval" and "\<bar>ratio\<bar> \<le> MAX_SWING_RATIO"
  shows "swing_delta idx interval ratio + swing_delta ((idx + 1) AND 0x03) interval ratio
           = 2 * sint interval"
  by (simp add: swing_delta_free [OF assms] next_parity)

lemma swing_delta_range:
  assumes "250 \<le> sint interval" "sint interval \<le> 120000" and "\<bar>ratio\<bar> \<le> MAX_SWING_RATIO"
  shows "60 < swing_delta idx interval ratio" and "swing_delta idx interval ratio < 240000"
    and "uint (word_of_int (swing_delta idx interval ratio) :: u32) = swing_delta idx interval ratio"
proof -
  have B: "0 < sint interval" using assms(1) by linarith
  note b = swing_offset_bound [OF B assms(3)]
  note f = swing_delta_free [OF B assms(3), of idx]
  show lo: "60 < swing_delta idx interval ratio"
    unfolding f using b assms(1) by (simp split: if_split) linarith
  show hi: "swing_delta idx interval ratio < 240000"
    unfolding f using b assms(2) by (simp split: if_split) linarith
  show "uint (word_of_int (swing_delta idx interval ratio) :: u32) = swing_delta idx interval ratio"
    unfolding uint_word_of_int_eq using lo hi by (intro take_bit_int_eq_self) simp_all
qed

lemma add_diff_word: "(t + w) - t = (w :: u32)"
  by simp

text \<open>
  Claim C9 (swing symmetry). With the base interval \<open>B = (int32_t)stepIntervalMs\<close> positive
  and the swing ratio \<open>r\<close> within \<open>MAX_SWING_RATIO\<close>, the interval \<open>swing_delta\<close> computes is
  \<open>B - offset\<close> on an even step index and \<open>B + offset\<close> on an odd one; \<open>offset\<close>, the
  truncated \<open>float\<close> product, is within 1 of \<open>B * r\<close> up to the rounding of the product
  (\<open>B / 2^22\<close>); and the intervals of a step and of the step after it add up to exactly
  \<open>2 * B\<close>, whatever the sign of \<open>r\<close>. For any arguments at all the interval is at least 1
  (the floor). In \<open>loop()\<close>: a pass that takes the step branch arms \<open>nextStepAt\<close> at
  \<open>now\<close> plus this interval, for the step index the play toggle leaves; with pot readings
  of the converter's range the two conditions hold; and over two step passes with the
  same pot readings, the second without a play edge, the two armed intervals add up to
  twice the step interval.
\<close>

theorem swing_pair_sum:
  assumes B: "0 < sint interval" and r: "\<bar>ratio\<bar> \<le> MAX_SWING_RATIO"
  shows "swing_delta idx interval ratio
           = (if even (unat idx) then sint interval - swing_offset interval ratio
              else sint interval + swing_offset interval ratio)
       \<and> \<bar>real_of_int (swing_offset interval ratio) - real_of_int (sint interval) * ratio\<bar>
           < 1 + real_of_int (sint interval) / 4194304
       \<and> swing_delta idx interval ratio + swing_delta ((idx + 1) AND 0x03) interval ratio
           = 2 * sint interval
       \<and> (\<forall>k w q. 1 \<le> swing_delta k w q)
       \<and> (stepDue_loop_sw i s \<longrightarrow>
            nextStepAtMs (loop_sw i s)
              = t_seq i + word_of_int (swing_delta (if playEdge_sw i s then 0 else stepIndex s)
                            (stepIntervalMs (loop_sw i s)) (swingRatio_of (swingRaw i))))
       \<and> (adc_range i \<and> stepDue_loop_sw i s \<longrightarrow>
            0 < sint (stepIntervalMs (loop_sw i s))
          \<and> \<bar>swingRatio_of (swingRaw i)\<bar> \<le> MAX_SWING_RATIO)
       \<and> (adc_range i \<and> stepDue_loop_sw i s
            \<and> tempoRaw i' = tempoRaw i \<and> swingRaw i' = swingRaw i
            \<and> \<not> playEdge_sw i' (loop_sw i s) \<and> stepDue_loop_sw i' (loop_sw i s) \<longrightarrow>
            uint (nextStepAtMs (loop_sw i s) - t_seq i)
              + uint (nextStepAtMs (loop_sw i' (loop_sw i s)) - t_seq i')
              = 2 * uint (stepIntervalMs (loop_sw i s)))"
proof (intro conjI impI allI)
  show "swing_delta idx interval ratio
           = (if even (unat idx) then sint interval - swing_offset interval ratio
              else sint interval + swing_offset interval ratio)"
    by (rule swing_delta_free [OF B r])
  show "\<bar>real_of_int (swing_offset interval ratio) - real_of_int (sint interval) * ratio\<bar>
           < 1 + real_of_int (sint interval) / 4194304"
    by (rule swing_offset_accuracy [OF B r])
  show "swing_delta idx interval ratio + swing_delta ((idx + 1) AND 0x03) interval ratio
           = 2 * sint interval"
    by (rule swing_delta_pair [OF B r])
  show "1 \<le> swing_delta k w q" for k w q
    by (rule swing_delta_floor)
next
  assume d: "stepDue_loop_sw i s"
  show "nextStepAtMs (loop_sw i s)
              = t_seq i + word_of_int (swing_delta (if playEdge_sw i s then 0 else stepIndex s)
                            (stepIntervalMs (loop_sw i s)) (swingRatio_of (swingRaw i)))"
    by (rule loop_sw_arm(2) [OF d])
next
  assume "adc_range i \<and> stepDue_loop_sw i s"
  then have a: "adc_range i" and d: "stepDue_loop_sw i s" by simp_all
  from a have t: "0 \<le> tempoRaw i" "tempoRaw i \<le> 1023" and w: "0 \<le> swingRaw i" "swingRaw i \<le> 1023"
    by (simp_all add: adc_range_def)
  from interval_word(1) [OF t loop_sw_arm(4) [OF d]]
  show "0 < sint (stepIntervalMs (loop_sw i s))"
    unfolding loop_sw_arm(1) [OF d] by linarith
  show "\<bar>swingRatio_of (swingRaw i)\<bar> \<le> MAX_SWING_RATIO"
    by (rule swingRatio_of_bound [OF w])
next
  assume h: "adc_range i \<and> stepDue_loop_sw i s
            \<and> tempoRaw i' = tempoRaw i \<and> swingRaw i' = swingRaw i
            \<and> \<not> playEdge_sw i' (loop_sw i s) \<and> stepDue_loop_sw i' (loop_sw i s)"
  then have a: "adc_range i" and d: "stepDue_loop_sw i s" and d': "stepDue_loop_sw i' (loop_sw i s)"
    and ne: "\<not> playEdge_sw i' (loop_sw i s)"
    and same: "tempoRaw i' = tempoRaw i" "swingRaw i' = swingRaw i"
    by simp_all
  from a have t: "0 \<le> tempoRaw i" "tempoRaw i \<le> 1023" and w: "0 \<le> swingRaw i" "swingRaw i \<le> 1023"
    by (simp_all add: adc_range_def)
  define I where "I = stepIntervalMs (loop_sw i s)"
  define q where "q = swingRatio_of (swingRaw i)"
  define k where "k = (if playEdge_sw i s then 0 else stepIndex s)"
  have I: "I = word_of_int (trunc_int (fl (60000 / bpm_of (tempoRaw i))))"
    unfolding I_def by (rule loop_sw_arm(1) [OF d])
  have I': "stepIntervalMs (loop_sw i' (loop_sw i s)) = I"
    unfolding loop_sw_arm(1) [OF d'] I same ..
  have rng: "250 \<le> sint I" "sint I \<le> 120000" "uint I = sint I"
    unfolding I using interval_word [OF t loop_sw_arm(4) [OF d]] by simp_all
  have q: "\<bar>q\<bar> \<le> MAX_SWING_RATIO"
    unfolding q_def by (rule swingRatio_of_bound [OF w])
  have B: "0 < sint I" using rng(1) by linarith
  have idx: "stepIndex (loop_sw i s) = (k + 1) AND 0x03"
    unfolding k_def by (rule loop_sw_arm(5) [OF d])
  have n1: "nextStepAtMs (loop_sw i s) = t_seq i + word_of_int (swing_delta k I q)"
    unfolding loop_sw_arm(2) [OF d] I_def q_def k_def ..
  have n2: "nextStepAtMs (loop_sw i' (loop_sw i s))
      = t_seq i' + word_of_int (swing_delta ((k + 1) AND 0x03) I q)"
    unfolding loop_sw_arm(2) [OF d'] I' using ne by (simp add: idx same q_def)
  have "uint (nextStepAtMs (loop_sw i s) - t_seq i) = swing_delta k I q"
    unfolding n1 add_diff_word by (rule swing_delta_range(3) [OF rng(1,2) q])
  moreover have "uint (nextStepAtMs (loop_sw i' (loop_sw i s)) - t_seq i')
      = swing_delta ((k + 1) AND 0x03) I q"
    unfolding n2 add_diff_word by (rule swing_delta_range(3) [OF rng(1,2) q])
  ultimately show "uint (nextStepAtMs (loop_sw i s) - t_seq i)
              + uint (nextStepAtMs (loop_sw i' (loop_sw i s)) - t_seq i')
              = 2 * uint (stepIntervalMs (loop_sw i s))"
    unfolding I_def [symmetric] rng(3) using swing_delta_pair [OF B q, of k] by simp
qed


lemma pre_sw_idle_pots:
  assumes "stepBtn s = [idleBtn 2, idleBtn 3, idleBtn 4, idleBtn 5]"
    and "instBtn s = idleBtn 16" and "playBtn s = idleBtn 10"
  shows "playToggle_sw ((idle_inputs t)\<lparr>tempoRaw := a, swingRaw := b\<rparr>)
           (stepButtons pollFalling (in_steps ((idle_inputs t)\<lparr>tempoRaw := a, swingRaw := b\<rparr>)) [0..<4]
              (selectVoice_sw ((idle_inputs t)\<lparr>tempoRaw := a, swingRaw := b\<rparr>) s)) = s"
    and "\<not> playEdge_sw ((idle_inputs t)\<lparr>tempoRaw := a, swingRaw := b\<rparr>) s"
proof -
  let ?i = "(idle_inputs t)\<lparr>tempoRaw := a, swingRaw := b\<rparr>"
  have x: "selectVoice_sw ?i s = s"
    using assms(2) by (simp add: selectVoice_sw_def idle_inputs_def pollFalling_idle)
  have y: "in_steps ?i = in_steps (idle_inputs t)" by simp
  have z: "playToggle_sw ?i s = s"
    using assms(3) by (simp add: playToggle_sw_def idle_inputs_def pollFalling_idle)
  show "playToggle_sw ?i (stepButtons pollFalling (in_steps ?i) [0..<4] (selectVoice_sw ?i s)) = s"
    unfolding x y using assms(1) z by (simp add: stepButtons_idle pollFalling_idle)
  show "\<not> playEdge_sw ?i s"
    using assms(3) by (simp add: playEdge_sw_def idle_inputs_def pollFalling_idle)
qed

lemma swing_offset_4_65: "swing_offset 63937 (swingRatio_of 65) = - 33492"
proof -
  have "real_of_int (sint (63937 :: u32)) = 63937" by simp
  then show ?thesis unfolding swing_offset_def by (simp only: offset_4_65)
qed

theorem swing_pair_sum_witness:
  "0 < sint (63937 :: u32)
 \<and> \<bar>swingRatio_of 65\<bar> \<le> MAX_SWING_RATIO
 \<and> swing_offset 63937 (swingRatio_of 65) = - 33492
 \<and> swing_delta 0 63937 (swingRatio_of 65) = 97429
 \<and> swing_delta 1 63937 (swingRatio_of 65) = 30445
 \<and> swing_delta 0 63937 (swingRatio_of 65) + swing_delta ((0 + 1) AND 0x03) 63937 (swingRatio_of 65)
      = 2 * sint (63937 :: u32)
 \<and> swing_delta 0 0 0 = 1
 \<and> adc_range ((idle_inputs 1000)\<lparr>tempoRaw := 4, swingRaw := 65\<rparr>)
 \<and> stepDue_loop_sw ((idle_inputs 1000)\<lparr>tempoRaw := 4, swingRaw := 65\<rparr>) (demo_mv (idleBtn 10) 1000 0)
 \<and> stepDue_loop_sw ((idle_inputs 31445)\<lparr>tempoRaw := 4, swingRaw := 65\<rparr>)
      (loop_sw ((idle_inputs 1000)\<lparr>tempoRaw := 4, swingRaw := 65\<rparr>) (demo_mv (idleBtn 10) 1000 0))
 \<and> stepIntervalMs (loop_sw ((idle_inputs 1000)\<lparr>tempoRaw := 4, swingRaw := 65\<rparr>)
      (demo_mv (idleBtn 10) 1000 0)) = 63937
 \<and> nextStepAtMs (loop_sw ((idle_inputs 1000)\<lparr>tempoRaw := 4, swingRaw := 65\<rparr>)
      (demo_mv (idleBtn 10) 1000 0)) = 1000 + 30445
 \<and> uint (nextStepAtMs (loop_sw ((idle_inputs 1000)\<lparr>tempoRaw := 4, swingRaw := 65\<rparr>)
        (demo_mv (idleBtn 10) 1000 0)) - 1000)
   + uint (nextStepAtMs (loop_sw ((idle_inputs 31445)\<lparr>tempoRaw := 4, swingRaw := 65\<rparr>)
        (loop_sw ((idle_inputs 1000)\<lparr>tempoRaw := 4, swingRaw := 65\<rparr>) (demo_mv (idleBtn 10) 1000 0)))
      - 31445)
   = 2 * 63937"
proof -
  let ?s = "demo_mv (idleBtn 10) 1000 0"
  let ?i = "(idle_inputs 1000)\<lparr>tempoRaw := 4, swingRaw := 65\<rparr>"
  let ?j = "(idle_inputs 31445)\<lparr>tempoRaw := 4, swingRaw := 65\<rparr>"
  have h1: "0 < sint (63937 :: u32)" by simp
  have h2: "\<bar>swingRatio_of 65\<bar> \<le> MAX_SWING_RATIO"
    by (simp add: swingRatio_of_65 MAX_SWING_RATIO_val)
  note f0 = swing_pair_sum [OF h1 h2, where idx = 0 and i = ?i and s = ?s and i' = ?j]
  note f1 = swing_pair_sum [OF h1 h2, where idx = 1 and i = ?i and s = ?s and i' = ?j]
  have o: "swing_offset 63937 (swingRatio_of 65) = - 33492" by (rule swing_offset_4_65)
  from f0 [THEN conjunct1] o have d0: "swing_delta 0 63937 (swingRatio_of 65) = 97429" by simp
  from f1 [THEN conjunct1] o have d1: "swing_delta 1 63937 (swingRatio_of 65) = 30445" by simp
  note sum = f0 [THEN conjunct2, THEN conjunct2, THEN conjunct1]
  have fl1: "swing_delta 0 0 0 = 1"
    by (simp add: swing_delta_def swing_offset_def fl_0 trunc_int_def)
  have b: "stepBtn ?s = [idleBtn 2, idleBtn 3, idleBtn 4, idleBtn 5]" "instBtn ?s = idleBtn 16"
    "playBtn ?s = idleBtn 10"
    by (simp_all add: demo_mv_def)
  have adc: "adc_range ?i" by (simp add: adc_range_def idle_inputs_def)
  have due1: "stepDue_loop_sw ?i ?s"
    unfolding stepDue_loop_sw_def pre_sw_idle_pots(1) [OF b]
    by (simp add: stepDue_sw_def bpm_of_4 demo_mv_def due_sw_def idle_inputs_def)
  have ne1: "\<not> playEdge_sw ?i ?s" by (rule pre_sw_idle_pots(2) [OF b])
  have I1: "stepIntervalMs (loop_sw ?i ?s) = 63937"
    unfolding loop_sw_arm(1) [OF due1] by (simp add: interval_4)
  from f0 due1 have "nextStepAtMs (loop_sw ?i ?s)
              = t_seq ?i + word_of_int (swing_delta (if playEdge_sw ?i ?s then 0 else stepIndex ?s)
                            (stepIntervalMs (loop_sw ?i ?s)) (swingRatio_of (swingRaw ?i)))"
    by blast
  then have n1: "nextStepAtMs (loop_sw ?i ?s) = 1000 + 30445"
    unfolding I1 using ne1 d1 by (simp add: demo_mv_def idle_inputs_def)
  have seq: "loop_sw ?i ?s = sequencer_sw ?i ?s"
    unfolding loop_sw_def pre_sw_idle_pots(1) [OF b] ..
  have b1: "stepBtn (loop_sw ?i ?s) = [idleBtn 2, idleBtn 3, idleBtn 4, idleBtn 5]"
    "instBtn (loop_sw ?i ?s) = idleBtn 16" "playBtn (loop_sw ?i ?s) = idleBtn 10"
    unfolding seq by (simp_all add: sequencer_sw_btns b)
  have ne2: "\<not> playEdge_sw ?j (loop_sw ?i ?s)" by (rule pre_sw_idle_pots(2) [OF b1])
  have due2: "stepDue_loop_sw ?j (loop_sw ?i ?s)"
    unfolding stepDue_loop_sw_def pre_sw_idle_pots(1) [OF b1]
    using loop_sw_arm(3) [OF due1] n1
    by (simp add: stepDue_sw_def bpm_of_4 due_sw_def idle_inputs_def)
  have same: "tempoRaw ?j = tempoRaw ?i" "swingRaw ?j = swingRaw ?i" by simp_all
  from f0 adc due1 same ne2 due2
  have "uint (nextStepAtMs (loop_sw ?i ?s) - t_seq ?i)
              + uint (nextStepAtMs (loop_sw ?j (loop_sw ?i ?s)) - t_seq ?j)
              = 2 * uint (stepIntervalMs (loop_sw ?i ?s))"
    by blast
  then have pair: "uint (nextStepAtMs (loop_sw ?i ?s) - 1000)
      + uint (nextStepAtMs (loop_sw ?j (loop_sw ?i ?s)) - 31445) = 2 * 63937"
    unfolding I1 by (simp add: idle_inputs_def)
  from h1 h2 o d0 d1 sum fl1 adc due1 due2 I1 n1 pair show ?thesis
    by (intro conjI)
qed

section \<open>The step cycle\<close>

lemma loop_sw_stepIndex:
  "unat (stepIndex (loop_sw i s))
     = (if stepDue_loop_sw i s then (unat (if playEdge_sw i s then 0 else stepIndex s) + 1) mod 4
        else unat (if playEdge_sw i s then 0 else stepIndex s))"
  unfolding loop_sw_def stepDue_loop_sw_def sequencer_sw_stepIndex toggled_stepIndex ..

lemma visited_cycle_sw:
  "unat (stepIndex s) < 4 \<Longrightarrow> no_play_edge s is \<Longrightarrow>
   k < length (visited loop_sw stepDue_loop_sw stepIndex s is) \<Longrightarrow>
   unat (visited loop_sw stepDue_loop_sw stepIndex s is ! k) = (unat (stepIndex s) + k + 1) mod 4"
proof (induction "is" arbitrary: s k)
  case Nil
  then show ?case by simp
next
  case (Cons i "is")
  from Cons.prems(2) have ne: "\<not> playEdge_sw i s" and rest: "no_play_edge (loop_sw i s) is"
    by simp_all
  have step: "unat (stepIndex (loop_sw i s))
      = (if stepDue_loop_sw i s then (unat (stepIndex s) + 1) mod 4 else unat (stepIndex s))"
    using ne by (simp add: loop_sw_stepIndex)
  have r: "unat (stepIndex (loop_sw i s)) < 4"
    using step Cons.prems(1) by (simp split: if_splits)
  show ?case
  proof (cases "stepDue_loop_sw i s")
    case True
    show ?thesis
    proof (cases k)
      case 0
      with True step show ?thesis by simp
    next
      case (Suc k')
      with True Cons.prems(3) have "k' < length (visited loop_sw stepDue_loop_sw stepIndex (loop_sw i s) is)"
        by simp
      from Cons.IH [OF r rest this]
      have "unat (visited loop_sw stepDue_loop_sw stepIndex (loop_sw i s) is ! k')
          = (unat (stepIndex (loop_sw i s)) + k' + 1) mod 4" .
      also have "\<dots> = ((unat (stepIndex s) + 1) mod 4 + k' + 1) mod 4"
        using True step by simp
      also have "\<dots> = (unat (stepIndex s) + k + 1) mod 4"
        unfolding Suc by (rule mod4_shift)
      finally show ?thesis using True Suc by simp
    qed
  next
    case False
    with Cons.prems(3) have "k < length (visited loop_sw stepDue_loop_sw stepIndex (loop_sw i s) is)"
      by simp
    from Cons.IH [OF r rest this] False step show ?thesis by simp
  qed
qed

lemma run_invariant:
  assumes "\<And>i s. P s \<Longrightarrow> P (f i s)"
  shows "P s \<Longrightarrow> P (run f s is)"
  by (induction "is" arbitrary: s) (simp_all add: assms)

lemma loop_fs_range: "unat (fs_stepIndex s) < 4 \<Longrightarrow> unat (fs_stepIndex (loop_fs i s)) < 4"
  by (simp add: loop_fs_stepIndex)

lemma loop_mv_range: "unat (stepIndex s) < 4 \<Longrightarrow> unat (stepIndex (loop_mv tr i s)) < 4"
  by (simp add: loop_mv_stepIndex)

text \<open>
  Claim C6, as amended (step cycle). In every sketch the step index changes only in a pass
  that takes the step branch, and then to the index before the branch plus one modulo 4;
  in the swing sketch the index before the branch is 0 when the play button's debounced
  edge arrives in the pass (the toggle resets it) and the old index otherwise. Along every
  run from \<open>setup()\<close> the index stays below 4. In the fixed-tempo sketches, along any run of
  passes, whatever their timing, the \<open>k\<close>-th pass that takes the step branch leaves the
  index \<open>start + k + 1\<close> modulo 4: from step 0 the run visits 1, 2, 3, 0, ... in that
  order, none skipped or repeated. In the swing sketch the same holds along any run in
  which no debounced play edge arrives.
\<close>

theorem step_cycle:
  "unat (fs_stepIndex (loop_fs i fs))
     = (if stepDue_fs i fs then (unat (fs_stepIndex fs) + 1) mod 4 else unat (fs_stepIndex fs))
 \<and> unat (stepIndex (loop_mv tr i s))
     = (if stepDue_mv tr i s then (unat (stepIndex s) + 1) mod 4 else unat (stepIndex s))
 \<and> unat (stepIndex (loop_sw i s))
     = (if stepDue_loop_sw i s then (unat (if playEdge_sw i s then 0 else stepIndex s) + 1) mod 4
        else unat (if playEdge_sw i s then 0 else stepIndex s))
 \<and> unat (fs_stepIndex (run loop_fs (setup_fs i0) ins)) < 4
 \<and> unat (stepIndex (run (loop_mv tr) (setup_mv i0) ins)) < 4
 \<and> unat (stepIndex (run loop_sw setup_sw ins)) < 4
 \<and> (unat (fs_stepIndex fs) < 4 \<longrightarrow>
      (\<forall>k < length (visited loop_fs stepDue_fs fs_stepIndex fs ins).
         unat (visited loop_fs stepDue_fs fs_stepIndex fs ins ! k)
           = (unat (fs_stepIndex fs) + k + 1) mod 4))
 \<and> (unat (stepIndex s) < 4 \<longrightarrow>
      (\<forall>k < length (visited (loop_mv tr) (stepDue_mv tr) stepIndex s ins).
         unat (visited (loop_mv tr) (stepDue_mv tr) stepIndex s ins ! k)
           = (unat (stepIndex s) + k + 1) mod 4))
 \<and> (unat (stepIndex s) < 4 \<and> no_play_edge s ins \<longrightarrow>
      (\<forall>k < length (visited loop_sw stepDue_loop_sw stepIndex s ins).
         unat (visited loop_sw stepDue_loop_sw stepIndex s ins ! k)
           = (unat (stepIndex s) + k + 1) mod 4))"
proof (intro conjI impI allI)
  show "unat (fs_stepIndex (loop_fs i fs))
     = (if stepDue_fs i fs then (unat (fs_stepIndex fs) + 1) mod 4 else unat (fs_stepIndex fs))"
    by (rule loop_fs_stepIndex)
  show "unat (stepIndex (loop_mv tr i s))
     = (if stepDue_mv tr i s then (unat (stepIndex s) + 1) mod 4 else unat (stepIndex s))"
    by (rule loop_mv_stepIndex)
  show "unat (stepIndex (loop_sw i s))
     = (if stepDue_loop_sw i s then (unat (if playEdge_sw i s then 0 else stepIndex s) + 1) mod 4
        else unat (if playEdge_sw i s then 0 else stepIndex s))"
    by (rule loop_sw_stepIndex)
  show "unat (fs_stepIndex (run loop_fs (setup_fs i0) ins)) < 4"
    by (rule run_invariant [where P = "\<lambda>s. unat (fs_stepIndex s) < 4", OF loop_fs_range])
       (simp_all add: setup_fs_facts)
  show "unat (stepIndex (run (loop_mv tr) (setup_mv i0) ins)) < 4"
    by (rule run_invariant [where P = "\<lambda>s. unat (stepIndex s) < 4", OF loop_mv_range])
       (simp_all add: setup_mv_def)
  show "unat (stepIndex (run loop_sw setup_sw ins)) < 4"
    by (rule run_invariant [where P = "\<lambda>s. unat (stepIndex s) < 4", OF loop_sw_stepIndex_range])
       (simp_all add: setup_sw_def)
  show "\<And>k. unat (fs_stepIndex fs) < 4 \<Longrightarrow> k < length (visited loop_fs stepDue_fs fs_stepIndex fs ins) \<Longrightarrow>
         unat (visited loop_fs stepDue_fs fs_stepIndex fs ins ! k)
           = (unat (fs_stepIndex fs) + k + 1) mod 4"
    by (rule visited_cycle [of fs_stepIndex loop_fs stepDue_fs, OF loop_fs_stepIndex])
  show "\<And>k. unat (stepIndex s) < 4 \<Longrightarrow> k < length (visited (loop_mv tr) (stepDue_mv tr) stepIndex s ins) \<Longrightarrow>
         unat (visited (loop_mv tr) (stepDue_mv tr) stepIndex s ins ! k)
           = (unat (stepIndex s) + k + 1) mod 4"
    by (rule visited_cycle [of stepIndex "loop_mv tr" "stepDue_mv tr", OF loop_mv_stepIndex])
  show "\<And>k. unat (stepIndex s) < 4 \<and> no_play_edge s ins \<Longrightarrow>
         k < length (visited loop_sw stepDue_loop_sw stepIndex s ins) \<Longrightarrow>
         unat (visited loop_sw stepDue_loop_sw stepIndex s ins ! k)
           = (unat (stepIndex s) + k + 1) mod 4"
    by (elim conjE) (rule visited_cycle_sw)
qed


lemma loop_sw_play_only:
  assumes "stepBtn s = [idleBtn 2, idleBtn 3, idleBtn 4, idleBtn 5]" "instBtn s = idleBtn 16"
    and "in_inst i = (t, True)" "in_steps i = in_steps (idle_inputs t)"
  shows "loop_sw i s = sequencer_sw i (playToggle_sw i s)"
    and "stepDue_loop_sw i s = stepDue_sw i (playToggle_sw i s)"
proof -
  have a: "selectVoice_sw i s = s"
    using assms(2,3) by (simp add: selectVoice_sw_def pollFalling_idle)
  have b: "stepButtons pollFalling (in_steps i) [0..<4] s = s"
    unfolding assms(4) using assms(1) by (intro stepButtons_idle) (simp_all add: pollFalling_idle)
  show "loop_sw i s = sequencer_sw i (playToggle_sw i s)"
    unfolding loop_sw_def a b ..
  show "stepDue_loop_sw i s = stepDue_sw i (playToggle_sw i s)"
    unfolding stepDue_loop_sw_def a b ..
qed

lemma setup_sw_btns:
  "stepBtn setup_sw = [idleBtn 2, idleBtn 3, idleBtn 4, idleBtn 5]"
  "instBtn setup_sw = idleBtn 16"
  "playBtn setup_sw = idleBtn 10"
  by (simp_all add: setup_sw_def idleBtn_def upt_rec)

lemma quiet_sw_fields:
  "stepBtn (quiet_sw pb pl idx nxt iv) = [idleBtn 2, idleBtn 3, idleBtn 4, idleBtn 5]"
  "instBtn (quiet_sw pb pl idx nxt iv) = idleBtn 16"
  "playBtn (quiet_sw pb pl idx nxt iv) = pb"
  "isPlaying (quiet_sw pb pl idx nxt iv) = pl"
  "stepIndex (quiet_sw pb pl idx nxt iv) = idx"
  "nextStepAtMs (quiet_sw pb pl idx nxt iv) = nxt"
  "stepIntervalMs (quiet_sw pb pl idx nxt iv) = iv"
  by (simp_all add: quiet_sw_def setup_sw_btns)

lemma notesOn_none:
  assumes "\<forall>v \<in> set vs. \<not> pattern s ! v ! unat (stepIndex s)"
  shows "notesOn msg dl vs s = s"
  using assms by (induction vs arbitrary: s) simp_all

lemma quiet_sw_silent:
  "sounding (quiet_sw pb pl idx nxt iv) = []"
  "unat idx < 4 \<Longrightarrow> \<forall>v \<in> set [0..<VOICE_COUNT].
      \<not> pattern (quiet_sw pb pl idx nxt iv) ! v ! unat (stepIndex (quiet_sw pb pl idx nxt iv))"
  by (simp_all add: sounding_def quiet_sw_def setup_sw_def VOICE_COUNT_def filter_empty_conv)

lemma quiet_sw_upd:
  "(quiet_sw pb pl idx nxt iv)\<lparr>stepIntervalMs := x\<rparr> = quiet_sw pb pl idx nxt x"
  "(quiet_sw pb pl idx nxt iv)\<lparr>nextStepAtMs := y\<rparr> = quiet_sw pb pl idx y iv"
  "(quiet_sw pb pl idx nxt iv)\<lparr>stepIndex := k\<rparr> = quiet_sw pb pl k nxt iv"
  "(quiet_sw pb pl idx nxt iv)\<lparr>isPlaying := p\<rparr> = quiet_sw pb p idx nxt iv"
  "(quiet_sw pb pl idx nxt iv)\<lparr>playBtn := b\<rparr> = quiet_sw b pl idx nxt iv"
  by (simp_all add: quiet_sw_def)

lemma playToggle_quiet:
  "playToggle_sw i (quiet_sw pb pl idx nxt iv)
     = (if fst (pollFalling pb 30 (fst (in_play i)) (snd (in_play i)))
        then quiet_sw (snd (pollFalling pb 30 (fst (in_play i)) (snd (in_play i)))) (\<not> pl) 0 (t_seq i) iv
        else quiet_sw (snd (pollFalling pb 30 (fst (in_play i)) (snd (in_play i)))) pl idx nxt iv)"
  unfolding playToggle_sw_cases quiet_sw_fields
  by (simp add: quiet_sw_upd expiry_silent quiet_sw_silent)

lemma sequencer_quiet:
  assumes "tempoRaw i = 1023" "swingRaw i = 512" "unat idx < 4"
  shows "sequencer_sw i (quiet_sw pb pl idx nxt iv)
     = (if pl \<and> nxt \<le> t_seq i then quiet_sw pb pl ((idx + 1) AND 0x03) (t_seq i + 250) 250
        else quiet_sw pb pl idx nxt 250)"
    and "stepDue_sw i (quiet_sw pb pl idx nxt iv) = (pl \<and> nxt \<le> t_seq i)"
proof -
  have d: "swing_delta idx 250 0 = 250"
    by (simp add: swing_delta_def Let_def idle_pots)
  have on: "notesOn noteOnMsg_sw dl [0..<VOICE_COUNT] (quiet_sw pb p idx nxt 250) = quiet_sw pb p idx nxt 250"
    for dl p
    by (rule notesOn_none) (rule quiet_sw_silent(2) [OF assms(3)])
  show "sequencer_sw i (quiet_sw pb pl idx nxt iv)
     = (if pl \<and> nxt \<le> t_seq i then quiet_sw pb pl ((idx + 1) AND 0x03) (t_seq i + 250) 250
        else quiet_sw pb pl idx nxt 250)"
    unfolding sequencer_sw_def Let_def assms(1,2) idle_pots
    by (simp add: idle_pots quiet_sw_upd expiry_silent quiet_sw_silent(1) on quiet_sw_fields due_sw_def d)
  show "stepDue_sw i (quiet_sw pb pl idx nxt iv) = (pl \<and> nxt \<le> t_seq i)"
    by (simp add: stepDue_sw_def assms(1) idle_pots quiet_sw_fields due_sw_def)
qed

lemma quiet_pass:
  assumes i: "in_inst i = (t, True)" "in_steps i = in_steps (idle_inputs t)" "in_play i = (t, r)"
      "t_seq i = t" "tempoRaw i = 1023" "swingRaw i = 512"
    and idx: "unat idx < 4"
  shows "loop_sw i (quiet_sw pb pl idx nxt iv)
     = (let e = fst (pollFalling pb 30 t r); b = snd (pollFalling pb 30 t r);
            pl' = (pl \<noteq> e); idx' = (if e then 0 else idx); nxt' = (if e then t else nxt)
        in if pl' \<and> nxt' \<le> t then quiet_sw b pl' ((idx' + 1) AND 0x03) (t + 250) 250
           else quiet_sw b pl' idx' nxt' 250)"
    and "stepDue_loop_sw i (quiet_sw pb pl idx nxt iv)
     = (let e = fst (pollFalling pb 30 t r) in (pl \<noteq> e) \<and> (if e then t else nxt) \<le> t)"
    and "playEdge_sw i (quiet_sw pb pl idx nxt iv) = fst (pollFalling pb 30 t r)"
proof -
  note l = loop_sw_play_only [OF quiet_sw_fields(1,2) i(1,2), of pb pl idx nxt iv]
  have z: "unat (0 :: u8) < 4" by simp
  show "loop_sw i (quiet_sw pb pl idx nxt iv)
     = (let e = fst (pollFalling pb 30 t r); b = snd (pollFalling pb 30 t r);
            pl' = (pl \<noteq> e); idx' = (if e then 0 else idx); nxt' = (if e then t else nxt)
        in if pl' \<and> nxt' \<le> t then quiet_sw b pl' ((idx' + 1) AND 0x03) (t + 250) 250
           else quiet_sw b pl' idx' nxt' 250)"
    unfolding l(1) playToggle_quiet i(3,4) fst_conv snd_conv Let_def
    by (simp add: sequencer_quiet(1) [OF i(5,6) idx] sequencer_quiet(1) [OF i(5,6) z] i(4))
  show "stepDue_loop_sw i (quiet_sw pb pl idx nxt iv)
     = (let e = fst (pollFalling pb 30 t r) in (pl \<noteq> e) \<and> (if e then t else nxt) \<le> t)"
    unfolding l(2) playToggle_quiet i(3,4) fst_conv snd_conv Let_def
    by (simp add: sequencer_quiet(2) [OF i(5,6) idx] sequencer_quiet(2) [OF i(5,6) z] i(4))
  show "playEdge_sw i (quiet_sw pb pl idx nxt iv) = fst (pollFalling pb 30 t r)"
    by (simp add: playEdge_sw_def quiet_sw_fields i(3))
qed

lemma quiet_press:
  assumes "unat idx < 4"
  shows "loop_sw (press_inputs t) (quiet_sw pb pl idx nxt iv)
     = (let e = fst (pollFalling pb 30 t False); b = snd (pollFalling pb 30 t False);
            pl' = (pl \<noteq> e); idx' = (if e then 0 else idx); nxt' = (if e then t else nxt)
        in if pl' \<and> nxt' \<le> t then quiet_sw b pl' ((idx' + 1) AND 0x03) (t + 250) 250
           else quiet_sw b pl' idx' nxt' 250)"
    and "stepDue_loop_sw (press_inputs t) (quiet_sw pb pl idx nxt iv)
     = (let e = fst (pollFalling pb 30 t False) in (pl \<noteq> e) \<and> (if e then t else nxt) \<le> t)"
    and "playEdge_sw (press_inputs t) (quiet_sw pb pl idx nxt iv) = fst (pollFalling pb 30 t False)"
proof -
  have i: "in_inst (press_inputs t) = (t, True)" "in_steps (press_inputs t) = in_steps (idle_inputs t)"
    "in_play (press_inputs t) = (t, False)" "t_seq (press_inputs t) = t"
    "tempoRaw (press_inputs t) = 1023" "swingRaw (press_inputs t) = 512"
    by (simp_all add: press_inputs_def idle_inputs_def)
  show "loop_sw (press_inputs t) (quiet_sw pb pl idx nxt iv)
     = (let e = fst (pollFalling pb 30 t False); b = snd (pollFalling pb 30 t False);
            pl' = (pl \<noteq> e); idx' = (if e then 0 else idx); nxt' = (if e then t else nxt)
        in if pl' \<and> nxt' \<le> t then quiet_sw b pl' ((idx' + 1) AND 0x03) (t + 250) 250
           else quiet_sw b pl' idx' nxt' 250)"
    by (rule quiet_pass(1) [OF i assms])
  show "stepDue_loop_sw (press_inputs t) (quiet_sw pb pl idx nxt iv)
     = (let e = fst (pollFalling pb 30 t False) in (pl \<noteq> e) \<and> (if e then t else nxt) \<le> t)"
    by (rule quiet_pass(2) [OF i assms])
  show "playEdge_sw (press_inputs t) (quiet_sw pb pl idx nxt iv) = fst (pollFalling pb 30 t False)"
    by (rule quiet_pass(3) [OF i assms])
qed

lemma quiet_idle:
  assumes "unat idx < 4"
  shows "loop_sw (idle_inputs t) (quiet_sw pb pl idx nxt iv)
     = (let e = fst (pollFalling pb 30 t True); b = snd (pollFalling pb 30 t True);
            pl' = (pl \<noteq> e); idx' = (if e then 0 else idx); nxt' = (if e then t else nxt)
        in if pl' \<and> nxt' \<le> t then quiet_sw b pl' ((idx' + 1) AND 0x03) (t + 250) 250
           else quiet_sw b pl' idx' nxt' 250)"
    and "stepDue_loop_sw (idle_inputs t) (quiet_sw pb pl idx nxt iv)
     = (let e = fst (pollFalling pb 30 t True) in (pl \<noteq> e) \<and> (if e then t else nxt) \<le> t)"
    and "playEdge_sw (idle_inputs t) (quiet_sw pb pl idx nxt iv) = fst (pollFalling pb 30 t True)"
proof -
  have i: "in_inst (idle_inputs t) = (t, True)" "in_steps (idle_inputs t) = in_steps (idle_inputs t)"
    "in_play (idle_inputs t) = (t, True)" "t_seq (idle_inputs t) = t"
    "tempoRaw (idle_inputs t) = 1023" "swingRaw (idle_inputs t) = 512"
    by (simp_all add: idle_inputs_def)
  show "loop_sw (idle_inputs t) (quiet_sw pb pl idx nxt iv)
     = (let e = fst (pollFalling pb 30 t True); b = snd (pollFalling pb 30 t True);
            pl' = (pl \<noteq> e); idx' = (if e then 0 else idx); nxt' = (if e then t else nxt)
        in if pl' \<and> nxt' \<le> t then quiet_sw b pl' ((idx' + 1) AND 0x03) (t + 250) 250
           else quiet_sw b pl' idx' nxt' 250)"
    by (rule quiet_pass(1) [OF i assms])
  show "stepDue_loop_sw (idle_inputs t) (quiet_sw pb pl idx nxt iv)
     = (let e = fst (pollFalling pb 30 t True) in (pl \<noteq> e) \<and> (if e then t else nxt) \<le> t)"
    by (rule quiet_pass(2) [OF i assms])
  show "playEdge_sw (idle_inputs t) (quiet_sw pb pl idx nxt iv) = fst (pollFalling pb 30 t True)"
    by (rule quiet_pass(3) [OF i assms])
qed


lemma setup_sw_quiet: "setup_sw = quiet_sw (idleBtn 10) False 0 0 0"
  by (simp add: quiet_sw_def setup_sw_def idleBtn_def)

text \<open>
  The claim as stated fails in the swing sketch: its play toggle sets \<open>stepIndex = 0\<close>.
  From \<open>setup()\<close>, with the play button pressed (committed at 140 ms), held over two steps,
  released, pressed again (stop, committed at 490 ms), released and pressed again (play,
  committed at 590 ms), the four passes that take the step branch leave the indices
  1, 2, 1, 2: step 3 is never reached and steps 1 and 2 are repeated.
\<close>

theorem swing_toggle_restarts_cycle:
  "stepIndex setup_sw = 0
 \<and> visited loop_sw stepDue_loop_sw stepIndex setup_sw
       [press_inputs 100, press_inputs 140, press_inputs 390, idle_inputs 400, idle_inputs 440,
        press_inputs 450, press_inputs 490, idle_inputs 500, idle_inputs 540, press_inputs 550,
        press_inputs 590, press_inputs 840]
     = [1, 2, 1, 2]
 \<and> \<not> no_play_edge setup_sw
       [press_inputs 100, press_inputs 140, press_inputs 390, idle_inputs 400, idle_inputs 440,
        press_inputs 450, press_inputs 490, idle_inputs 500, idle_inputs 540, press_inputs 550,
        press_inputs 590, press_inputs 840]"
proof -
  have a: "stepIndex setup_sw = 0" by (simp add: setup_sw_def)
  have b: "visited loop_sw stepDue_loop_sw stepIndex setup_sw
       [press_inputs 100, press_inputs 140, press_inputs 390, idle_inputs 400, idle_inputs 440,
        press_inputs 450, press_inputs 490, idle_inputs 500, idle_inputs 540, press_inputs 550,
        press_inputs 590, press_inputs 840]
     = [1, 2, 1, 2]"
    unfolding setup_sw_quiet
    by (simp add: quiet_press quiet_idle pollFalling_def idleBtn_def Let_def quiet_sw_fields)
  have c: "\<not> no_play_edge setup_sw
       [press_inputs 100, press_inputs 140, press_inputs 390, idle_inputs 400, idle_inputs 440,
        press_inputs 450, press_inputs 490, idle_inputs 500, idle_inputs 540, press_inputs 550,
        press_inputs 590, press_inputs 840]"
    unfolding setup_sw_quiet
    by (simp add: quiet_press quiet_idle pollFalling_def idleBtn_def Let_def quiet_sw_fields)
  from a b c show ?thesis by (intro conjI)
qed

lemma pre_mv_idle:
  assumes "stepBtn s = [idleBtn 2, idleBtn 3, idleBtn 4, idleBtn 5]"
    and "instBtn s = idleBtn 16" and "playBtn s = idleBtn 10"
  shows "handlePlayButton tr (idle_inputs t)
           (handleStepButtons (idle_inputs t) (handleInstrumentButton (idle_inputs t) s)) = s"
proof -
  have a: "handleInstrumentButton (idle_inputs t) s = s"
    using assms(2) by (simp add: handleInstrumentButton_def idle_inputs_def poll_idle)
  have b: "handleStepButtons (idle_inputs t) s = s"
    unfolding handleStepButtons_def using assms(1) by (intro stepButtons_idle) (simp_all add: poll_idle)
  have c: "handlePlayButton tr (idle_inputs t) s = s"
    using assms(3) by (simp add: handlePlayButton_def idle_inputs_def poll_idle)
  show ?thesis unfolding a b c ..
qed

lemma pre_sw_idle:
  assumes "stepBtn s = [idleBtn 2, idleBtn 3, idleBtn 4, idleBtn 5]"
    and "instBtn s = idleBtn 16" and "playBtn s = idleBtn 10"
  shows "playToggle_sw (idle_inputs t)
           (stepButtons pollFalling (in_steps (idle_inputs t)) [0..<4] (selectVoice_sw (idle_inputs t) s)) = s"
  using assms
  by (simp add: selectVoice_sw_idle stepButtons_idle pollFalling_idle playToggle_sw_idle)

lemma pre_fs_idle:
  assumes "fs_stepBtn s = [idleBtn 2, idleBtn 3, idleBtn 4, idleBtn 5]" "fs_playBtn s = idleBtn 10"
  shows "handlePlayButton_fs (idle_inputs t) (handleStepButtons_fs (in_steps (idle_inputs t)) [0..<4] s) = s"
  using assms by (simp add: handleStepButtons_fs_idle handlePlayButton_fs_idle)

theorem step_cycle_witness:
  "unat (fs_stepIndex (demo_fs 472)) < 4
 \<and> visited loop_fs stepDue_fs fs_stepIndex (demo_fs 472)
       [idle_inputs 472, idle_inputs 600, idle_inputs 944, idle_inputs 1416, idle_inputs 1888]
     = [1, 2, 3, 0]
 \<and> unat (visited loop_fs stepDue_fs fs_stepIndex (demo_fs 472)
       [idle_inputs 472, idle_inputs 600, idle_inputs 944, idle_inputs 1416, idle_inputs 1888] ! 3)
     = (unat (fs_stepIndex (demo_fs 472)) + 3 + 1) mod 4
 \<and> unat (stepIndex (demo_mv (idleBtn 10) 1000 0)) < 4
 \<and> visited (loop_mv USB_MIDI) (stepDue_mv USB_MIDI) stepIndex (demo_mv (idleBtn 10) 1000 0)
       [idle_inputs 1000] = [2]
 \<and> unat (visited (loop_mv USB_MIDI) (stepDue_mv USB_MIDI) stepIndex (demo_mv (idleBtn 10) 1000 0)
       [idle_inputs 1000] ! 0)
     = (unat (stepIndex (demo_mv (idleBtn 10) 1000 0)) + 0 + 1) mod 4
 \<and> stepIndex (run loop_sw setup_sw [press_inputs 100, press_inputs 140, press_inputs 390]) = 2
 \<and> unat (stepIndex (run loop_sw setup_sw [press_inputs 100, press_inputs 140, press_inputs 390])) < 4
 \<and> no_play_edge (run loop_sw setup_sw [press_inputs 100, press_inputs 140, press_inputs 390])
       [press_inputs 640, press_inputs 700, press_inputs 890, press_inputs 1140, press_inputs 1390]
 \<and> visited loop_sw stepDue_loop_sw stepIndex
       (run loop_sw setup_sw [press_inputs 100, press_inputs 140, press_inputs 390])
       [press_inputs 640, press_inputs 700, press_inputs 890, press_inputs 1140, press_inputs 1390]
     = [3, 0, 1, 2]
 \<and> unat (visited loop_sw stepDue_loop_sw stepIndex
       (run loop_sw setup_sw [press_inputs 100, press_inputs 140, press_inputs 390])
       [press_inputs 640, press_inputs 700, press_inputs 890, press_inputs 1140, press_inputs 1390] ! 3)
     = (unat (stepIndex (run loop_sw setup_sw [press_inputs 100, press_inputs 140, press_inputs 390]))
          + 3 + 1) mod 4"
proof -
  let ?ins = "[idle_inputs 472, idle_inputs 600, idle_inputs 944, idle_inputs 1416, idle_inputs 1888]"
  let ?m = "demo_mv (idleBtn 10) 1000 0"
  let ?q = "run loop_sw setup_sw [press_inputs 100, press_inputs 140, press_inputs 390]"
  let ?js = "[press_inputs 640, press_inputs 700, press_inputs 890, press_inputs 1140, press_inputs 1390]"
  note t1 = step_cycle [where fs = "demo_fs 472" and ins = ?ins]
  note t2 = step_cycle [where s = ?m and tr = USB_MIDI and ins = "[idle_inputs 1000]"]
  note t3 = step_cycle [where s = ?q and ins = ?js]
  have r: "unat (fs_stepIndex (demo_fs 472)) < 4"
    by (simp add: demo_fs_def)
  have vf: "visited loop_fs stepDue_fs fs_stepIndex (demo_fs 472) ?ins = [1, 2, 3, 0]"
    by (simp add: loop_fs_idle runSequencer_fs_fields demo_fs_fields due_def word_sle_eq)
  then have l: "3 < length (visited loop_fs stepDue_fs fs_stepIndex (demo_fs 472) ?ins)"
    by simp
  from t1 r l have cf: "unat (visited loop_fs stepDue_fs fs_stepIndex (demo_fs 472) ?ins ! 3)
      = (unat (fs_stepIndex (demo_fs 472)) + 3 + 1) mod 4"
    by blast
  have b: "stepBtn ?m = [idleBtn 2, idleBtn 3, idleBtn 4, idleBtn 5]" "instBtn ?m = idleBtn 16"
    "playBtn ?m = idleBtn 10"
    by (simp_all add: demo_mv_def)
  have rm: "unat (stepIndex ?m) < 4" by (simp add: demo_mv_def)
  have due: "stepDue_mv USB_MIDI (idle_inputs 1000) ?m"
    unfolding stepDue_mv_def Let_def pre_mv_idle [OF b]
    by (simp add: demo_mv_def idle_inputs_def due_def word_sle_eq)
  have im: "stepIndex (loop_mv USB_MIDI (idle_inputs 1000) ?m) = 2"
    unfolding loop_mv_def pre_mv_idle [OF b]
    by (simp add: runSequencer_stepIndex demo_mv_def idle_inputs_def due_def word_sle_eq)
  have vm: "visited (loop_mv USB_MIDI) (stepDue_mv USB_MIDI) stepIndex ?m [idle_inputs 1000] = [2]"
    using due im by simp
  then have lm: "0 < length (visited (loop_mv USB_MIDI) (stepDue_mv USB_MIDI) stepIndex ?m [idle_inputs 1000])"
    by simp
  from t2 rm lm have cm: "unat (visited (loop_mv USB_MIDI) (stepDue_mv USB_MIDI) stepIndex ?m
        [idle_inputs 1000] ! 0) = (unat (stepIndex ?m) + 0 + 1) mod 4"
    by blast
  have q: "?q = quiet_sw \<lparr>pin = 10, stable = False, lastRead = False, lastChangeMs = 100\<rparr> True 2 640 250"
    unfolding setup_sw_quiet
    by (simp add: quiet_press pollFalling_def idleBtn_def Let_def)
  have iq: "stepIndex ?q = 2" unfolding q by (simp add: quiet_sw_fields)
  have rq: "unat (stepIndex ?q) < 4" unfolding iq by simp
  have ne: "no_play_edge ?q ?js"
    unfolding q by (simp add: quiet_press pollFalling_def Let_def)
  have vq: "visited loop_sw stepDue_loop_sw stepIndex ?q ?js = [3, 0, 1, 2]"
    unfolding q by (simp add: quiet_press pollFalling_def Let_def quiet_sw_fields)
  then have lq: "3 < length (visited loop_sw stepDue_loop_sw stepIndex ?q ?js)" by simp
  from t3 rq ne lq have cq: "unat (visited loop_sw stepDue_loop_sw stepIndex ?q ?js ! 3)
      = (unat (stepIndex ?q) + 3 + 1) mod 4"
    by blast
  from r vf cf rm vm cm iq rq ne vq cq show ?thesis by (intro conjI)
qed

section \<open>The gate deadline\<close>

lemma emitted_later:
  assumes "only_sends P old mid" and "new = mid @ xs" and "m \<in> set xs"
  shows "m \<in> set (drop (length old) new)"
proof -
  from assms(1) have "take (length old) mid = old" by (simp add: only_sends_def)
  then have "length old = min (length old) (length mid)"
    by (metis length_take min.commute)
  then have "length old \<le> length mid" by simp
  then show ?thesis using assms(2,3) by simp
qed

lemma enter_mv:
  "stepIntervalMs (handlePlayButton tr i (handleStepButtons i (handleInstrumentButton i s))) = stepIntervalMs s"
  "length (noteActive (handlePlayButton tr i (handleStepButtons i (handleInstrumentButton i s))))
     = length (noteActive s)"
  "length (noteOffAtMs (handlePlayButton tr i (handleStepButtons i (handleInstrumentButton i s))))
     = length (noteOffAtMs s)"
  "only_sends note_msg_ok (sent s)
     (sent (handlePlayButton tr i (handleStepButtons i (handleInstrumentButton i s))))"
proof -
  let ?p = "handleStepButtons i (handleInstrumentButton i s)"
  show "stepIntervalMs (handlePlayButton tr i ?p) = stepIntervalMs s"
    by (simp add: handlePlayButton_cases pre_mv_frame notesOff_frame)
  show "length (noteActive (handlePlayButton tr i ?p)) = length (noteActive s)"
    by (simp add: handlePlayButton_cases pre_mv_frame notesOff_frame)
  show "length (noteOffAtMs (handlePlayButton tr i ?p)) = length (noteOffAtMs s)"
    by (simp add: handlePlayButton_cases pre_mv_frame notesOff_frame)
  have "sent ?p = sent s" by (simp add: pre_mv_frame)
  with handlePlayButton_only_sends [of ?p tr i]
  show "only_sends note_msg_ok (sent s) (sent (handlePlayButton tr i ?p))" by simp
qed

lemma runSequencer_step_sent:
  assumes "isPlaying s" "due now (nextStepAtMs s)"
  shows "sent (runSequencer tr now s)
     = sent s @ (map (noteOffMsg tr) (filter (\<lambda>v. noteActive s ! v \<and> due now (noteOffAtMs s ! v)) [0..<VOICE_COUNT])
        @ map (noteOnMsg tr) (filter (\<lambda>v. pattern s ! v ! unat (stepIndex s)) [0..<VOICE_COUNT]))"
    and "stepIntervalMs (runSequencer tr now s) = stepIntervalMs s"
  using assms
  by (simp_all add: runSequencer_def Let_def notesOff_frame notesOn_frame notesOn_sent notesOff_sent)

lemma fixed_gate:
  "ucast (gate_mv fixedInterval) = (120 :: u32)"
  "ucast (gate_fs fixedInterval) = (120 :: u32)"
  "spec_offDeadline now GATE_MS_BASE fixedInterval = now + 120"
  "uint (now + 120 - now) < uint (now + fixedInterval - now)"
  by (simp_all add: fixedInterval_472 gate_mv_def gate_fs_def GATE_MS_BASE_def spec_offDeadline_def
      spec_gate_def)

lemma loop_mv_gate:
  assumes wf: "wf_voices s" and v: "v < VOICE_COUNT" and iv: "stepIntervalMs s = fixedInterval"
    and d: "stepDue_mv tr i s" and t: "triggered_mv tr i s v"
  shows "noteOnMsg tr v \<in> set (drop (length (sent s)) (sent (loop_mv tr i s)))"
    and "noteActive (loop_mv tr i s) ! v"
    and "noteOffAtMs (loop_mv tr i s) ! v
           = spec_offDeadline (t_seq i) GATE_MS_BASE (stepIntervalMs (loop_mv tr i s))"
    and "nextStepAtMs (loop_mv tr i s) = t_seq i + stepIntervalMs (loop_mv tr i s)"
    and "uint (noteOffAtMs (loop_mv tr i s) ! v - t_seq i) < uint (nextStepAtMs (loop_mv tr i s) - t_seq i)"
proof -
  let ?e = "handlePlayButton tr i (handleStepButtons i (handleInstrumentButton i s))"
  from wf have wfe: "wf_voices ?e" by (simp add: wf_voices_def enter_mv)
  from d have st: "isPlaying ?e" "due (t_seq i) (nextStepAtMs ?e)"
    by (simp_all add: stepDue_mv_def Let_def)
  from t have tr: "pattern ?e ! v ! unat (stepIndex ?e)" by (simp add: triggered_mv_def Let_def)
  have ive: "stepIntervalMs ?e = fixedInterval" by (simp add: enter_mv iv)
  note dl = runSequencer_deadline [OF wfe v st tr, of tr]
  have iv': "stepIntervalMs (loop_mv tr i s) = fixedInterval"
    unfolding loop_mv_def runSequencer_step_sent(2) [OF st] by (rule ive)
  from v tr have mem: "noteOnMsg tr v
      \<in> set (map (noteOffMsg tr) (filter (\<lambda>v. noteActive ?e ! v \<and> due (t_seq i) (noteOffAtMs ?e ! v)) [0..<VOICE_COUNT])
        @ map (noteOnMsg tr) (filter (\<lambda>v. pattern ?e ! v ! unat (stepIndex ?e)) [0..<VOICE_COUNT]))"
    by simp
  show "noteOnMsg tr v \<in> set (drop (length (sent s)) (sent (loop_mv tr i s)))"
    unfolding loop_mv_def
    by (rule emitted_later [OF enter_mv(4) runSequencer_step_sent(1) [OF st] mem])
  from dl show "noteActive (loop_mv tr i s) ! v" unfolding loop_mv_def by simp
  from dl have o: "noteOffAtMs (loop_mv tr i s) ! v = t_seq i + 120"
    unfolding loop_mv_def ive fixed_gate by simp
  from dl have n: "nextStepAtMs (loop_mv tr i s) = t_seq i + fixedInterval"
    unfolding loop_mv_def ive by simp
  show "noteOffAtMs (loop_mv tr i s) ! v
           = spec_offDeadline (t_seq i) GATE_MS_BASE (stepIntervalMs (loop_mv tr i s))"
    unfolding o iv' fixed_gate ..
  show "nextStepAtMs (loop_mv tr i s) = t_seq i + stepIntervalMs (loop_mv tr i s)"
    unfolding n iv' ..
  show "uint (noteOffAtMs (loop_mv tr i s) ! v - t_seq i) < uint (nextStepAtMs (loop_mv tr i s) - t_seq i)"
    unfolding o n by (rule fixed_gate(4))
qed

lemma loop_mv_interval: "stepIntervalMs (loop_mv tr i s) = stepIntervalMs s"
  unfolding loop_mv_def
  by (simp add: runSequencer_def Let_def notesOff_frame notesOn_frame enter_mv)

lemma setup_mv_reach:
  "wf_voices (run (loop_mv tr) (setup_mv i0) js)"
  "stepIntervalMs (run (loop_mv tr) (setup_mv i0) js) = fixedInterval"
proof -
  show "wf_voices (run (loop_mv tr) (setup_mv i0) js)"
    by (rule run_invariant [where P = wf_voices, OF loop_mv_wf]) (simp_all add: setup_mv_facts)
  show "stepIntervalMs (run (loop_mv tr) (setup_mv i0) js) = fixedInterval"
    by (rule run_invariant [where P = "\<lambda>s. stepIntervalMs s = fixedInterval"])
       (simp_all add: loop_mv_interval setup_mv_def)
qed


lemma enter_fs:
  "fs_stepIntervalMs (handlePlayButton_fs i (handleStepButtons_fs (in_steps i) [0..<4] s))
     = fs_stepIntervalMs s"
  "only_sends note_msg_ok (fs_sent s)
     (fs_sent (handlePlayButton_fs i (handleStepButtons_fs (in_steps i) [0..<4] s)))"
proof -
  let ?p = "handleStepButtons_fs (in_steps i) [0..<4] s"
  have "fs_stepIntervalMs (handlePlayButton_fs i ?p) = fs_stepIntervalMs ?p"
    by (simp add: handlePlayButton_fs_def Let_def split: prod.splits)
  then show "fs_stepIntervalMs (handlePlayButton_fs i ?p) = fs_stepIntervalMs s"
    by (simp only: handleStepButtons_fs_frame)
  have "fs_sent ?p = fs_sent s" by (simp only: handleStepButtons_fs_frame)
  with handlePlayButton_fs_only_sends [of ?p i]
  show "only_sends note_msg_ok (fs_sent s) (fs_sent (handlePlayButton_fs i ?p))" by simp
qed

lemma runSequencer_fs_step:
  assumes "fs_isPlaying s" "due now (fs_nextStepAtMs s)" "stepEnabled s ! unat (fs_stepIndex s)"
  shows "fs_sent (runSequencer_fs now s)
     = fs_sent s @ ((if fs_noteActive s \<and> due now (fs_noteOffAtMs s)
                     then [sendNoteOff DRUM_NOTE 0 MIDI_CHANNEL_fs] else [])
                    @ [sendNoteOn DRUM_NOTE NOTE_VELOCITY MIDI_CHANNEL_fs])"
    and "fs_stepIntervalMs (runSequencer_fs now s) = fs_stepIntervalMs s"
    and "fs_noteActive (runSequencer_fs now s)"
    and "fs_noteOffAtMs (runSequencer_fs now s) = now + ucast (gate_fs (fs_stepIntervalMs s))"
    and "fs_nextStepAtMs (runSequencer_fs now s) = now + fs_stepIntervalMs s"
  using assms by (simp_all add: runSequencer_fs_def Let_def)

lemma loop_fs_gate:
  assumes iv: "fs_stepIntervalMs s = fixedInterval"
    and d: "stepDue_fs i s" and t: "triggered_fs i s"
  shows "sendNoteOn DRUM_NOTE NOTE_VELOCITY MIDI_CHANNEL_fs
           \<in> set (drop (length (fs_sent s)) (fs_sent (loop_fs i s)))"
    and "fs_noteActive (loop_fs i s)"
    and "fs_noteOffAtMs (loop_fs i s)
           = spec_offDeadline (t_seq i) GATE_MS_BASE (fs_stepIntervalMs (loop_fs i s))"
    and "fs_nextStepAtMs (loop_fs i s) = t_seq i + fs_stepIntervalMs (loop_fs i s)"
    and "uint (fs_noteOffAtMs (loop_fs i s) - t_seq i) < uint (fs_nextStepAtMs (loop_fs i s) - t_seq i)"
proof -
  let ?e = "handlePlayButton_fs i (handleStepButtons_fs (in_steps i) [0..<4] s)"
  from d have st: "fs_isPlaying ?e" "due (t_seq i) (fs_nextStepAtMs ?e)"
    by (simp_all add: stepDue_fs_def Let_def)
  from t have tr: "stepEnabled ?e ! unat (fs_stepIndex ?e)" by (simp add: triggered_fs_def Let_def)
  have ive: "fs_stepIntervalMs ?e = fixedInterval" by (simp add: enter_fs iv)
  note r = runSequencer_fs_step [OF st tr]
  have iv': "fs_stepIntervalMs (loop_fs i s) = fixedInterval"
    unfolding loop_fs_def r(2) by (rule ive)
  have mem: "sendNoteOn DRUM_NOTE NOTE_VELOCITY MIDI_CHANNEL_fs
      \<in> set ((if fs_noteActive ?e \<and> due (t_seq i) (fs_noteOffAtMs ?e)
                     then [sendNoteOff DRUM_NOTE 0 MIDI_CHANNEL_fs] else [])
                    @ [sendNoteOn DRUM_NOTE NOTE_VELOCITY MIDI_CHANNEL_fs])"
    by simp
  show "sendNoteOn DRUM_NOTE NOTE_VELOCITY MIDI_CHANNEL_fs
           \<in> set (drop (length (fs_sent s)) (fs_sent (loop_fs i s)))"
    unfolding loop_fs_def by (rule emitted_later [OF enter_fs(2) r(1) mem])
  show "fs_noteActive (loop_fs i s)" unfolding loop_fs_def by (rule r(3))
  have o: "fs_noteOffAtMs (loop_fs i s) = t_seq i + 120"
    unfolding loop_fs_def r(4) ive fixed_gate ..
  have n: "fs_nextStepAtMs (loop_fs i s) = t_seq i + fixedInterval"
    unfolding loop_fs_def r(5) ive ..
  show "fs_noteOffAtMs (loop_fs i s)
           = spec_offDeadline (t_seq i) GATE_MS_BASE (fs_stepIntervalMs (loop_fs i s))"
    unfolding o iv' fixed_gate ..
  show "fs_nextStepAtMs (loop_fs i s) = t_seq i + fs_stepIntervalMs (loop_fs i s)"
    unfolding n iv' ..
  show "uint (fs_noteOffAtMs (loop_fs i s) - t_seq i) < uint (fs_nextStepAtMs (loop_fs i s) - t_seq i)"
    unfolding o n by (rule fixed_gate(4))
qed

lemma loop_fs_interval: "fs_stepIntervalMs (loop_fs i s) = fs_stepIntervalMs s"
  unfolding loop_fs_def
  by (simp add: runSequencer_fs_fields enter_fs)

lemma setup_fs_reach: "fs_stepIntervalMs (run loop_fs (setup_fs i0) js) = fixedInterval"
  by (rule run_invariant [where P = "\<lambda>s. fs_stepIntervalMs s = fixedInterval"])
     (simp_all add: loop_fs_interval setup_fs_def)

lemma enter_sw:
  "length (noteActive (playToggle_sw i (stepButtons pollFalling rd is (selectVoice_sw i s))))
     = length (noteActive s)"
  "length (noteOffAtMs (playToggle_sw i (stepButtons pollFalling rd is (selectVoice_sw i s))))
     = length (noteOffAtMs s)"
  "only_sends note_msg_ok (sent s)
     (sent (playToggle_sw i (stepButtons pollFalling rd is (selectVoice_sw i s))))"
proof -
  let ?p = "stepButtons pollFalling rd is (selectVoice_sw i s)"
  show "length (noteActive (playToggle_sw i ?p)) = length (noteActive s)"
    by (simp add: playToggle_sw_cases pre_sw_frame notesOff_frame)
  show "length (noteOffAtMs (playToggle_sw i ?p)) = length (noteOffAtMs s)"
    by (simp add: playToggle_sw_cases pre_sw_frame notesOff_frame)
  have "sent ?p = sent s" by (simp add: pre_sw_frame)
  with playToggle_sw_only_sends [of ?p i]
  show "only_sends note_msg_ok (sent s) (sent (playToggle_sw i ?p))" by simp
qed

lemma sequencer_sw_step_sent:
  assumes "stepDue_sw i s"
  shows "sent (sequencer_sw i s)
     = sent s @ (map noteOffMsg_sw (filter (\<lambda>v. noteActive s ! v \<and> due_sw (t_seq i) (noteOffAtMs s ! v)) [0..<VOICE_COUNT])
        @ map noteOnMsg_sw (filter (\<lambda>v. pattern s ! v ! unat (stepIndex s)) [0..<VOICE_COUNT]))"
  using assms
  by (simp add: sequencer_sw_def stepDue_sw_def Let_def notesOff_frame notesOn_frame notesOn_sent
      notesOff_sent)

lemma swing_gate:
  assumes "250 \<le> sint (w :: u32)" "uint w = sint w"
  shows "spec_offDeadline now GATE_MS w = now + 60"
  using assms by (simp add: spec_offDeadline_def spec_gate_def GATE_MS_def Let_def)

lemma loop_sw_gate:
  assumes wf: "wf_voices s" and v: "v < VOICE_COUNT" and a: "adc_range i"
    and d: "stepDue_loop_sw i s" and t: "triggered_sw i s v"
  shows "noteOnMsg_sw v \<in> set (drop (length (sent s)) (sent (loop_sw i s)))"
    and "noteActive (loop_sw i s) ! v"
    and "noteOffAtMs (loop_sw i s) ! v
           = spec_offDeadline (t_seq i) GATE_MS (stepIntervalMs (loop_sw i s))"
    and "uint (noteOffAtMs (loop_sw i s) ! v - t_seq i) < uint (nextStepAtMs (loop_sw i s) - t_seq i)"
proof -
  let ?e = "playToggle_sw i (stepButtons pollFalling (in_steps i) [0..<4] (selectVoice_sw i s))"
  from wf have wfe: "wf_voices ?e" by (simp add: wf_voices_def enter_sw)
  from d have st: "stepDue_sw i ?e" by (simp add: stepDue_loop_sw_def)
  from t have tr: "pattern ?e ! v ! unat (stepIndex ?e)" by (simp add: triggered_sw_def Let_def)
  from a have tp: "0 \<le> tempoRaw i" "tempoRaw i \<le> 1023" and sp: "0 \<le> swingRaw i" "swingRaw i \<le> 1023"
    by (simp_all add: adc_range_def)
  note dl = sequencer_sw_deadline [OF wfe v st tr]
  note arm = loop_sw_arm [OF d]
  have rng: "250 \<le> sint (stepIntervalMs (loop_sw i s))" "sint (stepIntervalMs (loop_sw i s)) \<le> 120000"
    "uint (stepIntervalMs (loop_sw i s)) = sint (stepIntervalMs (loop_sw i s))"
    unfolding arm(1) using interval_word [OF tp arm(4)] by simp_all
  have q: "\<bar>swingRatio_of (swingRaw i)\<bar> \<le> MAX_SWING_RATIO"
    by (rule swingRatio_of_bound [OF sp])
  from v tr have mem: "noteOnMsg_sw v
      \<in> set (map noteOffMsg_sw (filter (\<lambda>v. noteActive ?e ! v \<and> due_sw (t_seq i) (noteOffAtMs ?e ! v)) [0..<VOICE_COUNT])
        @ map noteOnMsg_sw (filter (\<lambda>v. pattern ?e ! v ! unat (stepIndex ?e)) [0..<VOICE_COUNT]))"
    by simp
  show "noteOnMsg_sw v \<in> set (drop (length (sent s)) (sent (loop_sw i s)))"
    unfolding loop_sw_def
    by (rule emitted_later [OF enter_sw(3) sequencer_sw_step_sent [OF st] mem])
  from dl show "noteActive (loop_sw i s) ! v" unfolding loop_sw_def by simp
  from dl have o: "noteOffAtMs (loop_sw i s) ! v = t_seq i + 60" unfolding loop_sw_def by simp
  show "noteOffAtMs (loop_sw i s) ! v
           = spec_offDeadline (t_seq i) GATE_MS (stepIntervalMs (loop_sw i s))"
    unfolding o swing_gate [OF rng(1,3)] ..
  note dr = swing_delta_range [OF rng(1,2) q, of "if playEdge_sw i s then 0 else stepIndex s"]
  have "uint (nextStepAtMs (loop_sw i s) - t_seq i)
      = swing_delta (if playEdge_sw i s then 0 else stepIndex s) (stepIntervalMs (loop_sw i s))
          (swingRatio_of (swingRaw i))"
    by (subst arm(2)) (simp only: add_diff_word dr(3))
  moreover have "uint (noteOffAtMs (loop_sw i s) ! v - t_seq i) = 60"
    unfolding o by simp
  ultimately show "uint (noteOffAtMs (loop_sw i s) ! v - t_seq i)
      < uint (nextStepAtMs (loop_sw i s) - t_seq i)"
    using dr(1) by simp
qed

lemma setup_sw_reach: "wf_voices (run loop_sw setup_sw js)"
  by (rule run_invariant [where P = wf_voices, OF loop_sw_wf]) (simp_all add: setup_sw_facts)


lemma gate_fs_spec:
  assumes "10 < uint interval" "uint interval < 120 \<or> 130 \<le> uint interval"
  shows "uint (gate_fs interval) = spec_gate (uint GATE_MS_BASE) (uint interval)"
  using assms by (auto simp: gate_fs_uint spec_gate_def GATE_MS_BASE_def Let_def)

text \<open>
  Claim C1 (gate clamp). In the fixed-tempo sketches the step interval is the one \<open>setup()\<close>
  computes, \<open>60000 / 127 = 472\<close> ms, in every state a run from \<open>setup()\<close> reaches. In such
  a state, a pass at time \<open>now\<close> that takes the step branch with a step that triggers voice
  \<open>v\<close> sends the Note On for \<open>v\<close>, marks it sounding and arms its note-off deadline at
  \<open>now + min g (I - 10)\<close> as the specification words it (\<open>spec_offDeadline\<close>, with
  \<open>g = GATE_MS_BASE\<close>), arms the next step at \<open>now + I\<close>, and the deadline comes before the
  next step. The swing sketch, with pot readings of the converter's range, does the same
  with \<open>g = GATE_MS\<close> and the interval \<open>I\<close> of the pass (at least 250 ms): the deadline is
  \<open>now + 60\<close> and comes before the next step it arms. The gate functions themselves:
  \<open>gate_mv\<close> is \<open>g\<close> when \<open>g \<le> I\<close>, else \<open>I - 10\<close> when \<open>I > 10\<close>, else \<open>I\<close>; it and \<open>gate_fs\<close>
  (for \<open>I > 10\<close>) agree with the specification's rule for every interval outside
  \<open>120 \<le> I < 130\<close>, which no run reaches.
\<close>

theorem gate_deadline:
  assumes v: "v < VOICE_COUNT"
  shows
   "(wf_voices s \<and> stepIntervalMs s = fixedInterval \<and> stepDue_mv tr i s \<and> triggered_mv tr i s v \<longrightarrow>
        noteOnMsg tr v \<in> set (drop (length (sent s)) (sent (loop_mv tr i s)))
      \<and> noteActive (loop_mv tr i s) ! v
      \<and> noteOffAtMs (loop_mv tr i s) ! v
           = spec_offDeadline (t_seq i) GATE_MS_BASE (stepIntervalMs (loop_mv tr i s))
      \<and> nextStepAtMs (loop_mv tr i s) = t_seq i + stepIntervalMs (loop_mv tr i s)
      \<and> uint (noteOffAtMs (loop_mv tr i s) ! v - t_seq i)
           < uint (nextStepAtMs (loop_mv tr i s) - t_seq i))
  \<and> wf_voices (run (loop_mv tr) (setup_mv i0) js)
  \<and> stepIntervalMs (run (loop_mv tr) (setup_mv i0) js) = fixedInterval
  \<and> (fs_stepIntervalMs fs = fixedInterval \<and> stepDue_fs i fs \<and> triggered_fs i fs \<longrightarrow>
        sendNoteOn DRUM_NOTE NOTE_VELOCITY MIDI_CHANNEL_fs
          \<in> set (drop (length (fs_sent fs)) (fs_sent (loop_fs i fs)))
      \<and> fs_noteActive (loop_fs i fs)
      \<and> fs_noteOffAtMs (loop_fs i fs)
           = spec_offDeadline (t_seq i) GATE_MS_BASE (fs_stepIntervalMs (loop_fs i fs))
      \<and> fs_nextStepAtMs (loop_fs i fs) = t_seq i + fs_stepIntervalMs (loop_fs i fs)
      \<and> uint (fs_noteOffAtMs (loop_fs i fs) - t_seq i)
           < uint (fs_nextStepAtMs (loop_fs i fs) - t_seq i))
  \<and> fs_stepIntervalMs (run loop_fs (setup_fs i0) js) = fixedInterval
  \<and> (wf_voices s \<and> adc_range i \<and> stepDue_loop_sw i s \<and> triggered_sw i s v \<longrightarrow>
        noteOnMsg_sw v \<in> set (drop (length (sent s)) (sent (loop_sw i s)))
      \<and> noteActive (loop_sw i s) ! v
      \<and> noteOffAtMs (loop_sw i s) ! v
           = spec_offDeadline (t_seq i) GATE_MS (stepIntervalMs (loop_sw i s))
      \<and> uint (noteOffAtMs (loop_sw i s) ! v - t_seq i)
           < uint (nextStepAtMs (loop_sw i s) - t_seq i))
  \<and> wf_voices (run loop_sw setup_sw js)
  \<and> uint (gate_mv interval)
       = (if 120 \<le> uint interval then 120 else if 10 < uint interval then uint interval - 10
          else uint interval)
  \<and> (uint interval < 120 \<or> 130 \<le> uint interval \<longrightarrow>
        uint (gate_mv interval) = spec_gate (uint GATE_MS_BASE) (uint interval))
  \<and> (10 < uint interval \<and> (uint interval < 120 \<or> 130 \<le> uint interval) \<longrightarrow>
        uint (gate_fs interval) = spec_gate (uint GATE_MS_BASE) (uint interval))"
proof (intro conjI impI)
  assume h: "wf_voices s \<and> stepIntervalMs s = fixedInterval \<and> stepDue_mv tr i s \<and> triggered_mv tr i s v"
  then have a: "wf_voices s" and b: "stepIntervalMs s = fixedInterval" and c: "stepDue_mv tr i s"
    and d: "triggered_mv tr i s v" by simp_all
  note g = loop_mv_gate [OF a v b c d]
  show "noteOnMsg tr v \<in> set (drop (length (sent s)) (sent (loop_mv tr i s)))" by (rule g(1))
  show "noteActive (loop_mv tr i s) ! v" by (rule g(2))
  show "noteOffAtMs (loop_mv tr i s) ! v
           = spec_offDeadline (t_seq i) GATE_MS_BASE (stepIntervalMs (loop_mv tr i s))" by (rule g(3))
  show "nextStepAtMs (loop_mv tr i s) = t_seq i + stepIntervalMs (loop_mv tr i s)" by (rule g(4))
  show "uint (noteOffAtMs (loop_mv tr i s) ! v - t_seq i)
           < uint (nextStepAtMs (loop_mv tr i s) - t_seq i)" by (rule g(5))
next
  show "wf_voices (run (loop_mv tr) (setup_mv i0) js)" by (rule setup_mv_reach(1))
  show "stepIntervalMs (run (loop_mv tr) (setup_mv i0) js) = fixedInterval" by (rule setup_mv_reach(2))
  show "fs_stepIntervalMs (run loop_fs (setup_fs i0) js) = fixedInterval" by (rule setup_fs_reach)
  show "wf_voices (run loop_sw setup_sw js)" by (rule setup_sw_reach)
  show "uint (gate_mv interval)
       = (if 120 \<le> uint interval then 120 else if 10 < uint interval then uint interval - 10
          else uint interval)" by (rule gate_mv_uint)
  show "uint interval < 120 \<or> 130 \<le> uint interval \<Longrightarrow>
        uint (gate_mv interval) = spec_gate (uint GATE_MS_BASE) (uint interval)"
    by (rule gate_mv_spec)
  show "10 < uint interval \<and> (uint interval < 120 \<or> 130 \<le> uint interval) \<Longrightarrow>
        uint (gate_fs interval) = spec_gate (uint GATE_MS_BASE) (uint interval)"
    by (elim conjE) (rule gate_fs_spec)
next
  assume h: "fs_stepIntervalMs fs = fixedInterval \<and> stepDue_fs i fs \<and> triggered_fs i fs"
  then have b: "fs_stepIntervalMs fs = fixedInterval" and c: "stepDue_fs i fs"
    and d: "triggered_fs i fs" by simp_all
  note g = loop_fs_gate [OF b c d]
  show "sendNoteOn DRUM_NOTE NOTE_VELOCITY MIDI_CHANNEL_fs
          \<in> set (drop (length (fs_sent fs)) (fs_sent (loop_fs i fs)))" by (rule g(1))
  show "fs_noteActive (loop_fs i fs)" by (rule g(2))
  show "fs_noteOffAtMs (loop_fs i fs)
           = spec_offDeadline (t_seq i) GATE_MS_BASE (fs_stepIntervalMs (loop_fs i fs))" by (rule g(3))
  show "fs_nextStepAtMs (loop_fs i fs) = t_seq i + fs_stepIntervalMs (loop_fs i fs)" by (rule g(4))
  show "uint (fs_noteOffAtMs (loop_fs i fs) - t_seq i)
           < uint (fs_nextStepAtMs (loop_fs i fs) - t_seq i)" by (rule g(5))
next
  assume h: "wf_voices s \<and> adc_range i \<and> stepDue_loop_sw i s \<and> triggered_sw i s v"
  then have a: "wf_voices s" and b: "adc_range i" and c: "stepDue_loop_sw i s"
    and d: "triggered_sw i s v" by simp_all
  note g = loop_sw_gate [OF a v b c d]
  show "noteOnMsg_sw v \<in> set (drop (length (sent s)) (sent (loop_sw i s)))" by (rule g(1))
  show "noteActive (loop_sw i s) ! v" by (rule g(2))
  show "noteOffAtMs (loop_sw i s) ! v
           = spec_offDeadline (t_seq i) GATE_MS (stepIntervalMs (loop_sw i s))" by (rule g(3))
  show "uint (noteOffAtMs (loop_sw i s) ! v - t_seq i)
           < uint (nextStepAtMs (loop_sw i s) - t_seq i)" by (rule g(4))
qed


theorem gate_deadline_witness:
  "wf_voices (demo_mv (idleBtn 10) 1000 0)
 \<and> stepIntervalMs (demo_mv (idleBtn 10) 1000 0) = fixedInterval
 \<and> stepDue_mv USB_MIDI (idle_inputs 1000) (demo_mv (idleBtn 10) 1000 0)
 \<and> triggered_mv USB_MIDI (idle_inputs 1000) (demo_mv (idleBtn 10) 1000 0) 0
 \<and> noteOnMsg USB_MIDI 0 \<in> set (drop (length (sent (demo_mv (idleBtn 10) 1000 0)))
       (sent (loop_mv USB_MIDI (idle_inputs 1000) (demo_mv (idleBtn 10) 1000 0))))
 \<and> noteOffAtMs (loop_mv USB_MIDI (idle_inputs 1000) (demo_mv (idleBtn 10) 1000 0)) ! 0 = 1120
 \<and> nextStepAtMs (loop_mv USB_MIDI (idle_inputs 1000) (demo_mv (idleBtn 10) 1000 0)) = 1472
 \<and> fs_stepIntervalMs (demo_fs 472) = fixedInterval
 \<and> stepDue_fs (idle_inputs 472) (demo_fs 472)
 \<and> triggered_fs (idle_inputs 472) (demo_fs 472)
 \<and> fs_noteOffAtMs (loop_fs (idle_inputs 472) (demo_fs 472)) = 592
 \<and> fs_nextStepAtMs (loop_fs (idle_inputs 472) (demo_fs 472)) = 944
 \<and> adc_range (idle_inputs 1000)
 \<and> stepDue_loop_sw (idle_inputs 1000) (demo_mv (idleBtn 10) 1000 0)
 \<and> triggered_sw (idle_inputs 1000) (demo_mv (idleBtn 10) 1000 0) 0
 \<and> noteOnMsg_sw 0 \<in> set (drop (length (sent (demo_mv (idleBtn 10) 1000 0)))
       (sent (loop_sw (idle_inputs 1000) (demo_mv (idleBtn 10) 1000 0))))
 \<and> noteOffAtMs (loop_sw (idle_inputs 1000) (demo_mv (idleBtn 10) 1000 0)) ! 0 = 1060
 \<and> uint (noteOffAtMs (loop_sw (idle_inputs 1000) (demo_mv (idleBtn 10) 1000 0)) ! 0 - 1000)
      < uint (nextStepAtMs (loop_sw (idle_inputs 1000) (demo_mv (idleBtn 10) 1000 0)) - 1000)
 \<and> uint (gate_mv 100) = 90
 \<and> uint (gate_mv 100) = spec_gate (uint GATE_MS_BASE) (uint (100 :: u32))
 \<and> uint (gate_fs 100) = spec_gate (uint GATE_MS_BASE) (uint (100 :: u32))"
proof -
  let ?s = "demo_mv (idleBtn 10) 1000 0"
  let ?i = "idle_inputs 1000"
  let ?f = "demo_fs 472"
  let ?j = "idle_inputs 472"
  have v: "0 < VOICE_COUNT" by (simp add: VOICE_COUNT_def)
  note g = gate_deadline [OF v, where s = ?s and tr = USB_MIDI and i = ?i and interval = 100]
  note gf = gate_deadline [OF v, where fs = ?f and i = ?j]
  have b: "stepBtn ?s = [idleBtn 2, idleBtn 3, idleBtn 4, idleBtn 5]" "instBtn ?s = idleBtn 16"
    "playBtn ?s = idleBtn 10"
    by (simp_all add: demo_mv_def)
  have wf: "wf_voices ?s" by (simp add: wf_voices_def demo_mv_def VOICE_COUNT_def)
  have iv: "stepIntervalMs ?s = fixedInterval" by (simp add: demo_mv_def fixedInterval_472)
  have due: "stepDue_mv USB_MIDI ?i ?s"
    unfolding stepDue_mv_def Let_def pre_mv_idle [OF b]
    by (simp add: demo_mv_def idle_inputs_def due_def word_sle_eq)
  have trg: "triggered_mv USB_MIDI ?i ?s 0"
    unfolding triggered_mv_def Let_def pre_mv_idle [OF b] by (simp add: demo_mv_def)
  from g wf iv due trg
  have m1: "noteOnMsg USB_MIDI 0 \<in> set (drop (length (sent ?s)) (sent (loop_mv USB_MIDI ?i ?s)))"
    and m2: "noteOffAtMs (loop_mv USB_MIDI ?i ?s) ! 0
        = spec_offDeadline (t_seq ?i) GATE_MS_BASE (stepIntervalMs (loop_mv USB_MIDI ?i ?s))"
    and m3: "nextStepAtMs (loop_mv USB_MIDI ?i ?s) = t_seq ?i + stepIntervalMs (loop_mv USB_MIDI ?i ?s)"
    by blast+
  have li: "stepIntervalMs (loop_mv USB_MIDI ?i ?s) = 472"
    by (simp add: loop_mv_interval demo_mv_def)
  have sp: "spec_offDeadline 1000 GATE_MS_BASE 472 = 1120"
    by (simp add: spec_offDeadline_def spec_gate_def GATE_MS_BASE_def)
  from m2 have m2': "noteOffAtMs (loop_mv USB_MIDI ?i ?s) ! 0 = 1120"
    unfolding li by (simp add: idle_inputs_def sp)
  from m3 have m3': "nextStepAtMs (loop_mv USB_MIDI ?i ?s) = 1472"
    unfolding li by (simp add: idle_inputs_def)
  have fb: "fs_stepBtn ?f = [idleBtn 2, idleBtn 3, idleBtn 4, idleBtn 5]" "fs_playBtn ?f = idleBtn 10"
    by (simp_all add: demo_fs_fields)
  have fiv: "fs_stepIntervalMs ?f = fixedInterval" by (simp add: demo_fs_fields fixedInterval_472)
  have fdue: "stepDue_fs ?j ?f"
    unfolding stepDue_fs_def Let_def pre_fs_idle [OF fb]
    by (simp add: demo_fs_def idle_inputs_def due_def word_sle_eq)
  have ftrg: "triggered_fs ?j ?f"
    unfolding triggered_fs_def Let_def pre_fs_idle [OF fb] by (simp add: demo_fs_def)
  from gf fiv fdue ftrg
  have f2: "fs_noteOffAtMs (loop_fs ?j ?f)
        = spec_offDeadline (t_seq ?j) GATE_MS_BASE (fs_stepIntervalMs (loop_fs ?j ?f))"
    and f3: "fs_nextStepAtMs (loop_fs ?j ?f) = t_seq ?j + fs_stepIntervalMs (loop_fs ?j ?f)"
    by blast+
  have fli: "fs_stepIntervalMs (loop_fs ?j ?f) = 472"
    by (simp add: loop_fs_interval demo_fs_fields)
  have fsp: "spec_offDeadline 472 GATE_MS_BASE 472 = 592"
    by (simp add: spec_offDeadline_def spec_gate_def GATE_MS_BASE_def)
  from f2 have f2': "fs_noteOffAtMs (loop_fs ?j ?f) = 592"
    unfolding fli by (simp add: idle_inputs_def fsp)
  from f3 have f3': "fs_nextStepAtMs (loop_fs ?j ?f) = 944"
    unfolding fli by (simp add: idle_inputs_def)
  have adc: "adc_range ?i" by (simp add: adc_range_def idle_inputs_def)
  have sdue: "stepDue_loop_sw ?i ?s"
    unfolding stepDue_loop_sw_def pre_sw_idle [OF b]
    by (simp add: stepDue_sw_def idle_pots demo_mv_def due_sw_def idle_inputs_def)
  have strg: "triggered_sw ?i ?s 0"
    unfolding triggered_sw_def Let_def pre_sw_idle [OF b] by (simp add: demo_mv_def)
  from g wf adc sdue strg
  have s1: "noteOnMsg_sw 0 \<in> set (drop (length (sent ?s)) (sent (loop_sw ?i ?s)))"
    and s2: "noteOffAtMs (loop_sw ?i ?s) ! 0
        = spec_offDeadline (t_seq ?i) GATE_MS (stepIntervalMs (loop_sw ?i ?s))"
    and s3: "uint (noteOffAtMs (loop_sw ?i ?s) ! 0 - t_seq ?i)
        < uint (nextStepAtMs (loop_sw ?i ?s) - t_seq ?i)"
    by blast+
  have sli: "stepIntervalMs (loop_sw ?i ?s) = 250"
    unfolding loop_sw_arm(1) [OF sdue] by (simp add: idle_inputs_def idle_pots)
  have ssp: "spec_offDeadline 1000 GATE_MS 250 = 1060"
    by (simp add: spec_offDeadline_def spec_gate_def GATE_MS_def)
  from s2 have s2': "noteOffAtMs (loop_sw ?i ?s) ! 0 = 1060"
    unfolding sli by (simp add: idle_inputs_def ssp)
  from s3 have s3': "uint (noteOffAtMs (loop_sw ?i ?s) ! 0 - 1000)
      < uint (nextStepAtMs (loop_sw ?i ?s) - 1000)"
    by (simp add: idle_inputs_def)
  have c1: "uint (gate_mv 100) = 90"
    by (simp add: gate_mv_uint)
  have h1: "uint (100 :: u32) < 120 \<or> 130 \<le> uint (100 :: u32)" by simp
  have h2: "10 < uint (100 :: u32) \<and> (uint (100 :: u32) < 120 \<or> 130 \<le> uint (100 :: u32))" by simp
  from g h1 have c2: "uint (gate_mv 100) = spec_gate (uint GATE_MS_BASE) (uint (100 :: u32))"
    by blast
  from g h2 have c3: "uint (gate_fs 100) = spec_gate (uint GATE_MS_BASE) (uint (100 :: u32))"
    by blast
  from wf iv due trg m1 m2' m3' fiv fdue ftrg f2' f3' adc sdue strg s1 s2' s3' c1 c2 c3
  show ?thesis by (intro conjI)
qed

end
